theory Spec2Isabelle
  imports Main
begin

section \<open>Data model (Elevator.ts, Floor.ts, Building.ts)\<close>

text \<open>
  Floors, elevator ids and distances are JavaScript numbers that only ever hold integers
  (array indices, \<open>++\<close> and \<open>--\<close> from 0); they are modelled as \<open>int\<close>.
  A JavaScript \<open>Set<number>\<close> iterates in insertion order, and \<open>getNextDestination\<close>
  reads its first element, so \<open>destinationFloors\<close> is the list of its members in insertion
  order. The DOM handles (\<open>element\<close>, \<open>upButton\<close>, \<open>downButton\<close>) are not modelled.
\<close>

datatype Direction = UP | DOWN | IDLE

datatype ElevatorState = STATE_IDLE | MOVING_UP | MOVING_DOWN

record FloorRequest =
  req_floor :: int
  req_direction :: Direction

record Elevator =
  elev_id :: int
  currentFloor :: int
  destinationFloors :: "int list"
  state :: ElevatorState
  direction :: Direction

record Floor =
  number :: int
  upButtonPressed :: bool
  downButtonPressed :: bool

record Building =
  floors :: "Floor list"
  elevators :: "Elevator list"
  pendingRequests :: "FloorRequest list"
  totalFloors :: int
  totalElevators :: int

text \<open>Reading a property of \<open>undefined\<close> throws a TypeError.\<close>

datatype error = TypeError

section \<open>Elevator\<close>

definition Elevator_new :: "int \<Rightarrow> Elevator" where
  "Elevator_new i =
     \<lparr>elev_id = i, currentFloor = 0, destinationFloors = [], state = STATE_IDLE, direction = IDLE\<rparr>"

text \<open>\<open>Set.add\<close>: a member keeps its place, a new value goes last. \<open>Set.delete\<close>.\<close>

definition set_add :: "int \<Rightarrow> int list \<Rightarrow> int list" where
  "set_add f ds = (if f \<in> set ds then ds else ds @ [f])"

definition set_delete :: "int \<Rightarrow> int list \<Rightarrow> int list" where
  "set_delete f ds = filter (\<lambda>d. d \<noteq> f) ds"

text \<open>\<open>Math.min(...ds)\<close> and \<open>Math.max(...ds)\<close>, called on non-empty arrays only.\<close>

definition Math_min :: "int list \<Rightarrow> int" where
  "Math_min ds = fold min (tl ds) (hd ds)"

definition Math_max :: "int list \<Rightarrow> int" where
  "Math_max ds = fold max (tl ds) (hd ds)"

definition hasDestination :: "Elevator \<Rightarrow> int \<Rightarrow> bool" where
  "hasDestination e f = (f \<in> set (destinationFloors e))"

definition getNextDestination :: "Elevator \<Rightarrow> int option" where
  "getNextDestination e =
     (if length (destinationFloors e) = 0 then None
      else if direction e = UP
              \<and> length (filter (\<lambda>f. f > currentFloor e) (destinationFloors e)) > 0
        then Some (Math_min (filter (\<lambda>f. f > currentFloor e) (destinationFloors e)))
      else if direction e = DOWN
              \<and> length (filter (\<lambda>f. f < currentFloor e) (destinationFloors e)) > 0
        then Some (Math_max (filter (\<lambda>f. f < currentFloor e) (destinationFloors e)))
      else Some (hd (destinationFloors e)))"

definition updateDirection :: "Elevator \<Rightarrow> Elevator" where
  "updateDirection e =
     (if length (destinationFloors e) = 0 then e\<lparr>state := STATE_IDLE, direction := IDLE\<rparr>
      else case getNextDestination e of
             None \<Rightarrow> e\<lparr>state := STATE_IDLE, direction := IDLE\<rparr>
           | Some nextDestination \<Rightarrow>
               if nextDestination > currentFloor e
                 then e\<lparr>state := MOVING_UP, direction := UP\<rparr>
               else if nextDestination < currentFloor e
                 then e\<lparr>state := MOVING_DOWN, direction := DOWN\<rparr>
               else e\<lparr>state := STATE_IDLE, direction := IDLE\<rparr>)"

definition addDestination :: "Elevator \<Rightarrow> int \<Rightarrow> Elevator" where
  "addDestination e f =
     updateDirection (e\<lparr>destinationFloors := set_add f (destinationFloors e)\<rparr>)"

definition removeDestination :: "Elevator \<Rightarrow> int \<Rightarrow> Elevator" where
  "removeDestination e f =
     updateDirection (e\<lparr>destinationFloors := set_delete f (destinationFloors e)\<rparr>)"

text \<open>\<open>move\<close> returns the elevator after the call and the boolean it returns.\<close>

definition move :: "Elevator \<Rightarrow> Elevator \<times> bool" where
  "move e =
     (case getNextDestination e of
        None \<Rightarrow> (e, False)
      | Some nextDestination \<Rightarrow>
          let e1 = (if nextDestination > currentFloor e
                      then e\<lparr>currentFloor := currentFloor e + 1\<rparr>
                    else if nextDestination < currentFloor e
                      then e\<lparr>currentFloor := currentFloor e - 1\<rparr>
                    else e);
              e2 = (if currentFloor e1 = nextDestination
                      then removeDestination e1 (currentFloor e1)
                    else e1)
          in (updateDirection e2, True))"

definition canHandleRequest :: "Elevator \<Rightarrow> FloorRequest \<Rightarrow> bool" where
  "canHandleRequest e request =
     (if state e = STATE_IDLE then True
      else if direction e = UP \<and> req_direction request = UP
              \<and> req_floor request \<ge> currentFloor e then True
      else if direction e = DOWN \<and> req_direction request = DOWN
              \<and> req_floor request \<le> currentFloor e then True
      else False)"

definition getDistanceToRequest :: "Elevator \<Rightarrow> FloorRequest \<Rightarrow> int" where
  "getDistanceToRequest e request = \<bar>currentFloor e - req_floor request\<bar>"

section \<open>Floor\<close>

definition Floor_new :: "int \<Rightarrow> Floor" where
  "Floor_new n = \<lparr>number = n, upButtonPressed = False, downButtonPressed = False\<rparr>"

definition pressUpButton :: "Floor \<Rightarrow> Floor" where
  "pressUpButton fl = (if number fl \<noteq> 9 then fl\<lparr>upButtonPressed := True\<rparr> else fl)"

definition pressDownButton :: "Floor \<Rightarrow> Floor" where
  "pressDownButton fl = (if number fl \<noteq> 0 then fl\<lparr>downButtonPressed := True\<rparr> else fl)"

definition releaseUpButton :: "Floor \<Rightarrow> Floor" where
  "releaseUpButton fl = fl\<lparr>upButtonPressed := False\<rparr>"

definition releaseDownButton :: "Floor \<Rightarrow> Floor" where
  "releaseDownButton fl = fl\<lparr>downButtonPressed := False\<rparr>"

section \<open>Building\<close>

text \<open>\<open>Array.from({ length: n }, f)\<close> makes no element for \<open>n \<le> 0\<close>.\<close>

definition Building_new :: "int \<Rightarrow> int \<Rightarrow> Building" where
  "Building_new tf te =
     \<lparr>floors = map (\<lambda>i. Floor_new (int i)) [0..<nat tf],
      elevators = map (\<lambda>i. Elevator_new (int i)) [0..<nat te],
      pendingRequests = [],
      totalFloors = tf,
      totalElevators = te\<rparr>"

text \<open>\<open>this.floors[i]\<close>: \<open>undefined\<close> (here \<open>None\<close>) outside the array.\<close>

definition floor_at :: "Building \<Rightarrow> int \<Rightarrow> Floor option" where
  "floor_at b i =
     (if 0 \<le> i \<and> i < int (length (floors b)) then Some (floors b ! nat i) else None)"

text \<open>A method called on the floor object \<open>this.floors[i]\<close> changes it in place.\<close>

definition floor_put :: "Building \<Rightarrow> int \<Rightarrow> Floor \<Rightarrow> Building" where
  "floor_put b i fl = b\<lparr>floors := (floors b)[nat i := fl]\<rparr>"

definition same_request :: "FloorRequest \<Rightarrow> FloorRequest \<Rightarrow> bool" where
  "same_request request r =
     (req_floor r = req_floor request \<and> req_direction r = req_direction request)"

text \<open>\<open>findIndex\<close> followed by \<open>splice(index, 1)\<close>: the first match is taken out.\<close>

fun remove_first :: "('a \<Rightarrow> bool) \<Rightarrow> 'a list \<Rightarrow> 'a list" where
  "remove_first P [] = []"
| "remove_first P (x # xs) = (if P x then xs else x # remove_first P xs)"

definition removePendingRequest :: "Building \<Rightarrow> FloorRequest \<Rightarrow> error + Building" where
  "removePendingRequest b request =
     (let b1 = b\<lparr>pendingRequests := remove_first (same_request request) (pendingRequests b)\<rparr>;
          hasOtherRequests = list_ex (same_request request) (pendingRequests b1)
      in if \<not> hasOtherRequests
           then (case floor_at b1 (req_floor request) of
                   None \<Rightarrow> Inl TypeError
                 | Some fl \<Rightarrow>
                     Inr (floor_put b1 (req_floor request)
                            (if req_direction request = UP then releaseUpButton fl
                             else releaseDownButton fl)))
         else Inr b1)"

text \<open>
  The reducer of \<open>assignRequestToElevator\<close>. The filtered array holds references to the
  elevator objects of \<open>this.elevators\<close>; the model holds their indices.
\<close>

definition better :: "Building \<Rightarrow> FloorRequest \<Rightarrow> nat \<Rightarrow> nat \<Rightarrow> nat" where
  "better b request best current =
     (let bestDistance = getDistanceToRequest (elevators b ! best) request;
          currentDistance = getDistanceToRequest (elevators b ! current) request
      in if currentDistance < bestDistance then current
         else if currentDistance = bestDistance
                 \<and> state (elevators b ! current) = STATE_IDLE
                 \<and> state (elevators b ! best) \<noteq> STATE_IDLE then current
         else best)"

definition availableElevators :: "Building \<Rightarrow> FloorRequest \<Rightarrow> nat list" where
  "availableElevators b request =
     filter (\<lambda>i. canHandleRequest (elevators b ! i) request) [0..<length (elevators b)]"

definition bestElevator :: "Building \<Rightarrow> FloorRequest \<Rightarrow> nat" where
  "bestElevator b request =
     foldl (better b request) (hd (availableElevators b request))
       (tl (availableElevators b request))"

definition assignRequestToElevator :: "Building \<Rightarrow> FloorRequest \<Rightarrow> error + Building" where
  "assignRequestToElevator b request =
     (if length (availableElevators b request) = 0 then Inr b
      else let i = bestElevator b request;
               b1 = b\<lparr>elevators :=
                       (elevators b)[i := addDestination (elevators b ! i) (req_floor request)]\<rparr>
           in removePendingRequest b1 request)"

definition requestElevator :: "Building \<Rightarrow> int \<Rightarrow> Direction \<Rightarrow> error + Building" where
  "requestElevator b floorNumber dir =
     (if floorNumber < 0 \<or> floorNumber \<ge> totalFloors b then Inr b
      else if floorNumber = 0 \<and> dir = DOWN then Inr b
      else if floorNumber = totalFloors b - 1 \<and> dir = UP then Inr b
      else let request = \<lparr>req_floor = floorNumber, req_direction = dir\<rparr>;
               b1 = b\<lparr>pendingRequests := pendingRequests b @ [request]\<rparr>
           in case floor_at b1 floorNumber of
                None \<Rightarrow> Inl TypeError
              | Some fl \<Rightarrow>
                  assignRequestToElevator
                    (floor_put b1 floorNumber
                       (if dir = UP then pressUpButton fl else pressDownButton fl))
                    request)"

text \<open>\<open>this.elevators[elevatorId]\<close> is \<open>undefined\<close> outside the array, and then skipped.\<close>

definition requestElevatorFloor :: "Building \<Rightarrow> int \<Rightarrow> int \<Rightarrow> Building" where
  "requestElevatorFloor b elevatorId floorNumber =
     (if floorNumber < 0 \<or> floorNumber \<ge> totalFloors b then b
      else if 0 \<le> elevatorId \<and> elevatorId < int (length (elevators b))
        then b\<lparr>elevators :=
                 (elevators b)[nat elevatorId :=
                    addDestination (elevators b ! nat elevatorId) floorNumber]\<rparr>
      else b)"

text \<open>
  \<open>this.pendingRequests.forEach(...)\<close>: \<open>Array.prototype.forEach\<close> reads the length once,
  then visits the indices \<open>0 .. len - 1\<close> of the live array, skipping an index that the
  array no longer has. The callback removes entries from the same array.
\<close>

function forEach_pending :: "nat \<Rightarrow> nat \<Rightarrow> Building \<Rightarrow> error + Building" where
  "forEach_pending k len b =
     (if k < len
        then if k < length (pendingRequests b)
               then (case assignRequestToElevator b (pendingRequests b ! k) of
                       Inl err \<Rightarrow> Inl err
                     | Inr b' \<Rightarrow> forEach_pending (Suc k) len b')
             else forEach_pending (Suc k) len b
      else Inr b)"
  by pat_completeness auto
termination
  by (relation "measure (\<lambda>(k, len, b). len - k)") auto

declare forEach_pending.simps [simp del]

text \<open>The body of the loop of \<open>checkElevatorArrivals\<close>, for one elevator.\<close>

definition arrival :: "Building \<Rightarrow> Elevator \<Rightarrow> error + Building" where
  "arrival b elevator =
     (case floor_at b (currentFloor elevator) of
        None \<Rightarrow> Inl TypeError
      | Some fl \<Rightarrow>
          (case (if upButtonPressed fl \<and> direction elevator = UP
                   then removePendingRequest
                          (floor_put b (currentFloor elevator) (releaseUpButton fl))
                          \<lparr>req_floor = currentFloor elevator, req_direction = UP\<rparr>
                 else Inr b) of
             Inl err \<Rightarrow> Inl err
           | Inr b1 \<Rightarrow>
               (case floor_at b1 (currentFloor elevator) of
                  None \<Rightarrow> Inl TypeError
                | Some fl1 \<Rightarrow>
                    if downButtonPressed fl1 \<and> direction elevator = DOWN
                      then removePendingRequest
                             (floor_put b1 (currentFloor elevator) (releaseDownButton fl1))
                             \<lparr>req_floor = currentFloor elevator, req_direction = DOWN\<rparr>
                    else Inr b1)))"

fun arrivals :: "Elevator list \<Rightarrow> Building \<Rightarrow> error + Building" where
  "arrivals [] b = Inr b"
| "arrivals (elevator # es) b =
     (case arrival b elevator of Inl err \<Rightarrow> Inl err | Inr b' \<Rightarrow> arrivals es b')"

definition checkElevatorArrivals :: "Building \<Rightarrow> error + Building" where
  "checkElevatorArrivals b = arrivals (elevators b) b"

definition move_all :: "Building \<Rightarrow> Building" where
  "move_all b = b\<lparr>elevators := map (\<lambda>elevator. fst (move elevator)) (elevators b)\<rparr>"

definition assign_pending :: "Building \<Rightarrow> error + Building" where
  "assign_pending b = forEach_pending 0 (length (pendingRequests b)) b"

definition update :: "Building \<Rightarrow> error + Building" where
  "update b =
     (case assign_pending (move_all b) of
        Inl err \<Rightarrow> Inl err
      | Inr b2 \<Rightarrow> checkElevatorArrivals b2)"

definition reset :: "Building \<Rightarrow> Building" where
  "reset b =
     b\<lparr>floors := map (\<lambda>fl. releaseDownButton (releaseUpButton fl)) (floors b),
       elevators :=
         map (\<lambda>e. e\<lparr>currentFloor := 0, destinationFloors := [],
                     state := STATE_IDLE, direction := IDLE\<rparr>) (elevators b),
       pendingRequests := []\<rparr>"

section \<open>Sequences of operations\<close>

datatype Op =
    RequestElevator int Direction
  | RequestElevatorFloor int int
  | Update
  | Reset

fun apply_op :: "Building \<Rightarrow> Op \<Rightarrow> error + Building" where
  "apply_op b (RequestElevator f d) = requestElevator b f d"
| "apply_op b (RequestElevatorFloor i f) = Inr (requestElevatorFloor b i f)"
| "apply_op b Update = update b"
| "apply_op b Reset = Inr (reset b)"

fun run :: "Building \<Rightarrow> Op list \<Rightarrow> error + Building" where
  "run b [] = Inr b"
| "run b (x # xs) = (case apply_op b x of Inl err \<Rightarrow> Inl err | Inr b' \<Rightarrow> run b' xs)"

section \<open>Predicates and scenarios of the statements\<close>

text \<open>\<open>n\<close> successive calls of \<open>move\<close> on one elevator.\<close>

fun moves :: "nat \<Rightarrow> Elevator \<Rightarrow> Elevator" where
  "moves 0 e = e"
| "moves (Suc n) e = moves n (fst (move e))"

text \<open>An elevator at floor 3 on its way up to floor 7.\<close>

definition elevator_3_up_7 :: Elevator where
  "elevator_3_up_7 =
     \<lparr>elev_id = 0, currentFloor = 3, destinationFloors = [7], state = MOVING_UP, direction = UP\<rparr>"

text \<open>
  The direction is \<open>IDLE\<close> exactly when there is no next destination or the next
  destination is the floor the elevator is at, and \<open>state\<close> follows \<open>direction\<close>.
\<close>

definition direction_ok :: "Elevator \<Rightarrow> bool" where
  "direction_ok e \<longleftrightarrow>
     (direction e = IDLE \<longleftrightarrow>
        getNextDestination e = None \<or> getNextDestination e = Some (currentFloor e))
     \<and> (state e = STATE_IDLE \<longleftrightarrow> direction e = IDLE)"

text \<open>
  What holds of every elevator of a building with \<open>tf\<close> floors: its direction is the
  recomputed one, it stands on a floor of the building (on floor 0 in a building without
  floors), and its destinations are floors of the building.
\<close>

definition elevator_inv :: "int \<Rightarrow> Elevator \<Rightarrow> bool" where
  "elevator_inv tf e \<longleftrightarrow>
     direction_ok e
     \<and> 0 \<le> currentFloor e \<and> currentFloor e < max 1 tf
     \<and> (\<forall>d\<in>set (destinationFloors e). 0 \<le> d \<and> d < tf)"

text \<open>
  What holds of every building made by \<open>new Building(tf, te)\<close> and used through its
  public methods: the floors and elevators are numbered by their index, and every queued
  request is for a floor of the building.
\<close>

definition building_inv :: "int \<Rightarrow> int \<Rightarrow> Building \<Rightarrow> bool" where
  "building_inv tf te b \<longleftrightarrow>
     totalFloors b = tf \<and> totalElevators b = te
     \<and> map number (floors b) = map int [0..<nat tf]
     \<and> map elev_id (elevators b) = map int [0..<nat te]
     \<and> (\<forall>e\<in>set (elevators b). elevator_inv tf e)
     \<and> (\<forall>r\<in>set (pendingRequests b). 0 \<le> req_floor r \<and> req_floor r < tf)"

text \<open>The number of queued requests for the floor and direction of \<open>request\<close>.\<close>

definition queued :: "FloorRequest \<Rightarrow> Building \<Rightarrow> nat" where
  "queued request b = length (filter (same_request request) (pendingRequests b))"

text \<open>Requests and buildings of the scenarios.\<close>

definition request_5_up :: FloorRequest where
  "request_5_up = \<lparr>req_floor = 5, req_direction = UP\<rparr>"

definition request_5_down :: FloorRequest where
  "request_5_down = \<lparr>req_floor = 5, req_direction = DOWN\<rparr>"

definition request_6_down :: FloorRequest where
  "request_6_down = \<lparr>req_floor = 6, req_direction = DOWN\<rparr>"



text \<open>
  Four elevators sent to floor 9, two DOWN requests that no elevator can take while all
  move up, and eight ticks: the elevators are at floor 8.
\<close>

definition two_calls_waiting :: "Op list" where
  "two_calls_waiting =
     [RequestElevatorFloor 0 9, RequestElevatorFloor 1 9, RequestElevatorFloor 2 9,
      RequestElevatorFloor 3 9, RequestElevator 5 DOWN, RequestElevator 6 DOWN,
      Update, Update, Update, Update, Update, Update, Update, Update]"

text \<open>Four elevators sent to floor 9, four DOWN requests, and nine ticks.\<close>

definition four_calls_waiting :: "Op list" where
  "four_calls_waiting =
     [RequestElevatorFloor 0 9, RequestElevatorFloor 1 9, RequestElevatorFloor 2 9,
      RequestElevatorFloor 3 9, RequestElevator 2 DOWN, RequestElevator 7 DOWN,
      RequestElevator 3 DOWN, RequestElevator 8 DOWN,
      Update, Update, Update, Update, Update, Update, Update, Update, Update]"

text \<open>
  The building in the tenth tick after \<open>four_calls_waiting\<close>, before the arrivals are
  checked: elevators 0 and 1 pass floor 8 on their way down, and the request (8, DOWN) is
  still queued.
\<close>

definition passing_8 :: Building where
  "passing_8 =
     \<lparr>floors = (map (\<lambda>i. Floor_new (int i)) [0..<10])
                 [8 := \<lparr>number = 8, upButtonPressed = False, downButtonPressed = True\<rparr>],
      elevators =
        [\<lparr>elev_id = 0, currentFloor = 8, destinationFloors = [2, 7],
          state = MOVING_DOWN, direction = DOWN\<rparr>,
         \<lparr>elev_id = 1, currentFloor = 8, destinationFloors = [3],
          state = MOVING_DOWN, direction = DOWN\<rparr>,
         \<lparr>elev_id = 2, currentFloor = 9, destinationFloors = [],
          state = STATE_IDLE, direction = IDLE\<rparr>,
         \<lparr>elev_id = 3, currentFloor = 9, destinationFloors = [],
          state = STATE_IDLE, direction = IDLE\<rparr>],
      pendingRequests = [\<lparr>req_floor = 8, req_direction = DOWN\<rparr>],
      totalFloors = 10,
      totalElevators = 4\<rparr>"

text \<open>From \<open>b\<close> to \<open>b'\<close> buttons were released only.\<close>

definition released_only :: "Building \<Rightarrow> Building \<Rightarrow> bool" where
  "released_only b b' \<longleftrightarrow>
     length (floors b') = length (floors b)
     \<and> (\<forall>i<length (floors b).
           (upButtonPressed (floors b' ! i) \<longrightarrow> upButtonPressed (floors b ! i))
         \<and> (downButtonPressed (floors b' ! i) \<longrightarrow> downButtonPressed (floors b ! i)))"

text \<open>Two elevators moving up with a destination on either side.\<close>

definition elevator_5_up_3_7 :: Elevator where
  "elevator_5_up_3_7 =
     \<lparr>elev_id = 0, currentFloor = 5, destinationFloors = [3, 7], state = MOVING_UP, direction = UP\<rparr>"

definition elevator_6_up_7_3 :: Elevator where
  "elevator_6_up_7_3 =
     \<lparr>elev_id = 1, currentFloor = 6, destinationFloors = [7, 3], state = MOVING_UP, direction = UP\<rparr>"

text \<open>
  A history after which elevator 0 moves up at floor 2, elevators 1 and 2 are idle at
  floors 8 and 9, and elevator 3 moves down at floor 6; and the building it leaves.
\<close>

definition mixed_history :: "Op list" where
  "mixed_history =
     [RequestElevatorFloor 1 8, RequestElevatorFloor 2 9, RequestElevatorFloor 3 6,
      Update, Update, Update, Update, Update, Update, Update,
      RequestElevatorFloor 0 9, Update, Update, RequestElevatorFloor 3 1]"

definition mixed_building :: Building where
  "mixed_building =
     \<lparr>floors = map (\<lambda>i. Floor_new (int i)) [0..<10],
      elevators =
        [\<lparr>elev_id = 0, currentFloor = 2, destinationFloors = [9],
          state = MOVING_UP, direction = UP\<rparr>,
         \<lparr>elev_id = 1, currentFloor = 8, destinationFloors = [],
          state = STATE_IDLE, direction = IDLE\<rparr>,
         \<lparr>elev_id = 2, currentFloor = 9, destinationFloors = [],
          state = STATE_IDLE, direction = IDLE\<rparr>,
         \<lparr>elev_id = 3, currentFloor = 6, destinationFloors = [1],
          state = MOVING_DOWN, direction = DOWN\<rparr>],
      pendingRequests = [],
      totalFloors = 10,
      totalElevators = 4\<rparr>"


section \<open>The next destination\<close>

lemma Math_min_eq: "ds \<noteq> [] \<Longrightarrow> Math_min ds = Min (set ds)"
  by (cases ds) (simp_all add: Math_min_def Min.set_eq_fold [symmetric])

lemma Math_max_eq: "ds \<noteq> [] \<Longrightarrow> Math_max ds = Max (set ds)"
  by (cases ds) (simp_all add: Math_max_def Max.set_eq_fold [symmetric])

lemma Math_min_in: "ds \<noteq> [] \<Longrightarrow> Math_min ds \<in> set ds"
  using Min_in [of "set ds"] by (simp add: Math_min_eq)

lemma Math_max_in: "ds \<noteq> [] \<Longrightarrow> Math_max ds \<in> set ds"
  using Max_in [of "set ds"] by (simp add: Math_max_eq)

lemma getNextDestination_None: "getNextDestination e = None \<longleftrightarrow> destinationFloors e = []"
  by (simp add: getNextDestination_def)

lemma getNextDestination_mem:
  assumes "getNextDestination e = Some nd"
  shows "nd \<in> set (destinationFloors e)"
proof -
  let ?up = "filter (\<lambda>f. f > currentFloor e) (destinationFloors e)"
  let ?dn = "filter (\<lambda>f. f < currentFloor e) (destinationFloors e)"
  have ne: "destinationFloors e \<noteq> []"
    using assms by (auto simp: getNextDestination_def)
  consider (up) "nd = Math_min ?up" "?up \<noteq> []"
    | (dn) "nd = Math_max ?dn" "?dn \<noteq> []"
    | (first) "nd = hd (destinationFloors e)"
    using assms by (auto simp: getNextDestination_def split: if_splits)
  then show ?thesis
  proof cases
    case up
    then have "nd \<in> set ?up" using Math_min_in by blast
    then show ?thesis by simp
  next
    case dn
    then have "nd \<in> set ?dn" using Math_max_in by blast
    then show ?thesis by simp
  next
    case first
    then show ?thesis using ne by simp
  qed
qed

lemma getNextDestination_UP:
  assumes "direction e = UP" "\<exists>d\<in>set (destinationFloors e). d > currentFloor e"
  shows "getNextDestination e = Some (Min {d \<in> set (destinationFloors e). d > currentFloor e})"
proof -
  let ?up = "filter (\<lambda>f. f > currentFloor e) (destinationFloors e)"
  have ne: "?up \<noteq> []" using assms(2) by (auto simp: filter_empty_conv)
  then have "destinationFloors e \<noteq> []" by auto
  then have "getNextDestination e = Some (Math_min ?up)"
    using ne assms(1) by (simp add: getNextDestination_def)
  also have "Math_min ?up = Min (set ?up)" using ne by (rule Math_min_eq)
  also have "set ?up = {d \<in> set (destinationFloors e). d > currentFloor e}" by auto
  finally show ?thesis .
qed

lemma getNextDestination_DOWN:
  assumes "direction e = DOWN" "\<exists>d\<in>set (destinationFloors e). d < currentFloor e"
  shows "getNextDestination e = Some (Max {d \<in> set (destinationFloors e). d < currentFloor e})"
proof -
  let ?dn = "filter (\<lambda>f. f < currentFloor e) (destinationFloors e)"
  have ne: "?dn \<noteq> []" using assms(2) by (auto simp: filter_empty_conv)
  then have "destinationFloors e \<noteq> []" by auto
  then have "getNextDestination e = Some (Math_max ?dn)"
    using ne assms(1) by (simp add: getNextDestination_def)
  also have "Math_max ?dn = Max (set ?dn)" using ne by (rule Math_max_eq)
  also have "set ?dn = {d \<in> set (destinationFloors e). d < currentFloor e}" by auto
  finally show ?thesis .
qed

lemmas elevator_defs =
  getNextDestination_def updateDirection_def addDestination_def removeDestination_def
  move_def set_add_def set_delete_def Math_min_def Math_max_def

section \<open>Recomputing the direction\<close>

lemma updateDirection_fields [simp]:
  "currentFloor (updateDirection e) = currentFloor e"
  "destinationFloors (updateDirection e) = destinationFloors e"
  "elev_id (updateDirection e) = elev_id e"
  by (simp_all add: updateDirection_def split: option.split)

lemma getNextDestination_UP_gt:
  assumes "direction e = UP" "d \<in> set (destinationFloors e)" "d > currentFloor e"
  shows "\<exists>nd. getNextDestination e = Some nd \<and> nd > currentFloor e"
proof -
  let ?S = "{d \<in> set (destinationFloors e). d > currentFloor e}"
  have "getNextDestination e = Some (Min ?S)"
    using assms by (intro getNextDestination_UP) auto
  moreover have "Min ?S \<in> ?S" using assms by (intro Min_in) auto
  ultimately show ?thesis by simp
qed

lemma getNextDestination_DOWN_lt:
  assumes "direction e = DOWN" "d \<in> set (destinationFloors e)" "d < currentFloor e"
  shows "\<exists>nd. getNextDestination e = Some nd \<and> nd < currentFloor e"
proof -
  let ?S = "{d \<in> set (destinationFloors e). d < currentFloor e}"
  have "getNextDestination e = Some (Max ?S)"
    using assms by (intro getNextDestination_DOWN) auto
  moreover have "Max ?S \<in> ?S" using assms by (intro Max_in) auto
  ultimately show ?thesis by simp
qed

lemma getNextDestination_IDLE:
  "direction e = IDLE \<Longrightarrow> destinationFloors e \<noteq> [] \<Longrightarrow>
   getNextDestination e = Some (hd (destinationFloors e))"
  by (simp add: getNextDestination_def)

lemma getNextDestination_here:
  assumes "getNextDestination e = Some (currentFloor e)"
  shows "hd (destinationFloors e) = currentFloor e \<and> destinationFloors e \<noteq> []"
proof -
  have ne: "destinationFloors e \<noteq> []"
    using assms by (auto simp: getNextDestination_def)
  have "getNextDestination e = Some (hd (destinationFloors e))"
  proof (cases "direction e")
    case UP
    show ?thesis
    proof (cases "\<exists>d\<in>set (destinationFloors e). d > currentFloor e")
      case True
      then show ?thesis using getNextDestination_UP_gt [OF UP] assms by auto
    next
      case False
      then have "filter (\<lambda>f. f > currentFloor e) (destinationFloors e) = []"
        by (auto simp: filter_empty_conv)
      then show ?thesis using UP ne by (simp add: getNextDestination_def)
    qed
  next
    case DOWN
    show ?thesis
    proof (cases "\<exists>d\<in>set (destinationFloors e). d < currentFloor e")
      case True
      then show ?thesis using getNextDestination_DOWN_lt [OF DOWN] assms by auto
    next
      case False
      then have "filter (\<lambda>f. f < currentFloor e) (destinationFloors e) = []"
        by (auto simp: filter_empty_conv)
      then show ?thesis using DOWN ne by (simp add: getNextDestination_def)
    qed
  next
    case IDLE
    then show ?thesis using ne by (rule getNextDestination_IDLE)
  qed
  then show ?thesis using assms ne by simp
qed

text \<open>What \<open>updateDirection\<close> leaves behind, by the next destination it saw.\<close>

lemma updateDirection_cases:
  obtains
    (none) "destinationFloors e = []"
      "updateDirection e = e\<lparr>state := STATE_IDLE, direction := IDLE\<rparr>"
  | (up) nd where "getNextDestination e = Some nd" "nd > currentFloor e"
      "updateDirection e = e\<lparr>state := MOVING_UP, direction := UP\<rparr>"
  | (down) nd where "getNextDestination e = Some nd" "nd < currentFloor e"
      "updateDirection e = e\<lparr>state := MOVING_DOWN, direction := DOWN\<rparr>"
  | (here) "getNextDestination e = Some (currentFloor e)"
      "updateDirection e = e\<lparr>state := STATE_IDLE, direction := IDLE\<rparr>"
proof (cases "getNextDestination e")
  case None
  then have "destinationFloors e = []" by (simp add: getNextDestination_None)
  then show ?thesis using none by (simp add: updateDirection_def)
next
  case (Some nd)
  then have ne: "destinationFloors e \<noteq> []" using getNextDestination_None [of e] by auto
  consider "nd > currentFloor e" | "nd < currentFloor e" | "nd = currentFloor e" by linarith
  then show ?thesis
  proof cases
    case 1 then show ?thesis using up [of nd] Some ne by (simp add: updateDirection_def)
  next
    case 2 then show ?thesis using down [of nd] Some ne by (simp add: updateDirection_def)
  next
    case 3 then show ?thesis using here Some ne by (simp add: updateDirection_def)
  qed
qed

lemma updateDirection_ok: "direction_ok (updateDirection e)"
proof (cases e rule: updateDirection_cases)
  case none
  then show ?thesis by (simp add: direction_ok_def getNextDestination_def)
next
  case (up nd)
  let ?e = "e\<lparr>state := MOVING_UP, direction := UP\<rparr>"
  have "nd \<in> set (destinationFloors e)" using up(1) by (rule getNextDestination_mem)
  then obtain nd' where "getNextDestination ?e = Some nd'" "nd' > currentFloor ?e"
    using getNextDestination_UP_gt [of ?e nd] up(2) by auto
  then show ?thesis using up(3) by (simp add: direction_ok_def)
next
  case (down nd)
  let ?e = "e\<lparr>state := MOVING_DOWN, direction := DOWN\<rparr>"
  have "nd \<in> set (destinationFloors e)" using down(1) by (rule getNextDestination_mem)
  then obtain nd' where "getNextDestination ?e = Some nd'" "nd' < currentFloor ?e"
    using getNextDestination_DOWN_lt [of ?e nd] down(2) by auto
  then show ?thesis using down(3) by (simp add: direction_ok_def)
next
  case here
  let ?e = "e\<lparr>state := STATE_IDLE, direction := IDLE\<rparr>"
  from getNextDestination_here [OF here(1)]
  have "getNextDestination ?e = Some (currentFloor ?e)"
    using getNextDestination_IDLE [of ?e] by simp
  then show ?thesis using here(2) by (simp add: direction_ok_def)
qed

lemma updateDirection_idem: "updateDirection (updateDirection e) = updateDirection e"
proof (cases e rule: updateDirection_cases)
  case none
  then show ?thesis by (simp add: updateDirection_def)
next
  case (up nd)
  let ?e = "e\<lparr>state := MOVING_UP, direction := UP\<rparr>"
  have "nd \<in> set (destinationFloors e)" using up(1) by (rule getNextDestination_mem)
  then obtain nd' where "getNextDestination ?e = Some nd'" "nd' > currentFloor ?e"
    using getNextDestination_UP_gt [of ?e nd] up(2) by auto
  then show ?thesis using up(3) by (auto simp: updateDirection_def)
next
  case (down nd)
  let ?e = "e\<lparr>state := MOVING_DOWN, direction := DOWN\<rparr>"
  have "nd \<in> set (destinationFloors e)" using down(1) by (rule getNextDestination_mem)
  then obtain nd' where "getNextDestination ?e = Some nd'" "nd' < currentFloor ?e"
    using getNextDestination_DOWN_lt [of ?e nd] down(2) by auto
  then show ?thesis using down(3) by (auto simp: updateDirection_def)
next
  case here
  let ?e = "e\<lparr>state := STATE_IDLE, direction := IDLE\<rparr>"
  from getNextDestination_here [OF here(1)]
  have "getNextDestination ?e = Some (currentFloor ?e)"
    using getNextDestination_IDLE [of ?e] by simp
  then show ?thesis using here(2) by (auto simp: updateDirection_def)
qed

section \<open>One step of an elevator\<close>

text \<open>
  C7. For an elevator whose direction is UP, \<open>getNextDestination\<close> returns the least
  destination strictly above \<open>currentFloor\<close> whenever there is one; for direction DOWN,
  the greatest destination strictly below it. Consequently the elevator at floor 3 moving
  UP towards 7 that is given floor 5 holds the destinations 7 and 5, reaches floor 5 after
  two calls of \<open>move\<close> and removes it there while 7 is still a destination, and reaches
  and removes 7 after four calls.
\<close>

theorem getNextDestination_ahead_first:
  "(direction e = UP \<and> (\<exists>d\<in>set (destinationFloors e). d > currentFloor e) \<longrightarrow>
      getNextDestination e = Some (Min {d \<in> set (destinationFloors e). d > currentFloor e}))
   \<and> (direction e = DOWN \<and> (\<exists>d\<in>set (destinationFloors e). d < currentFloor e) \<longrightarrow>
      getNextDestination e = Some (Max {d \<in> set (destinationFloors e). d < currentFloor e}))
   \<and> destinationFloors (addDestination elevator_3_up_7 5) = [7, 5]
   \<and> direction (addDestination elevator_3_up_7 5) = UP
   \<and> currentFloor (moves 1 (addDestination elevator_3_up_7 5)) = 4
   \<and> destinationFloors (moves 1 (addDestination elevator_3_up_7 5)) = [7, 5]
   \<and> currentFloor (moves 2 (addDestination elevator_3_up_7 5)) = 5
   \<and> destinationFloors (moves 2 (addDestination elevator_3_up_7 5)) = [7]
   \<and> currentFloor (moves 3 (addDestination elevator_3_up_7 5)) = 6
   \<and> destinationFloors (moves 3 (addDestination elevator_3_up_7 5)) = [7]
   \<and> currentFloor (moves 4 (addDestination elevator_3_up_7 5)) = 7
   \<and> destinationFloors (moves 4 (addDestination elevator_3_up_7 5)) = []"
proof -
  have scenario:
    "destinationFloors (addDestination elevator_3_up_7 5) = [7, 5]
     \<and> direction (addDestination elevator_3_up_7 5) = UP
     \<and> currentFloor (moves 1 (addDestination elevator_3_up_7 5)) = 4
     \<and> destinationFloors (moves 1 (addDestination elevator_3_up_7 5)) = [7, 5]
     \<and> currentFloor (moves 2 (addDestination elevator_3_up_7 5)) = 5
     \<and> destinationFloors (moves 2 (addDestination elevator_3_up_7 5)) = [7]
     \<and> currentFloor (moves 3 (addDestination elevator_3_up_7 5)) = 6
     \<and> destinationFloors (moves 3 (addDestination elevator_3_up_7 5)) = [7]
     \<and> currentFloor (moves 4 (addDestination elevator_3_up_7 5)) = 7
     \<and> destinationFloors (moves 4 (addDestination elevator_3_up_7 5)) = []"
    by (simp add: elevator_defs elevator_3_up_7_def eval_nat_numeral)
  show ?thesis
    using getNextDestination_UP [of e] getNextDestination_DOWN [of e] scenario by blast
qed

theorem getNextDestination_ahead_first_witness:
  "getNextDestination (addDestination elevator_3_up_7 5) = Some 5
   \<and> getNextDestination
        \<lparr>elev_id = 1, currentFloor = 6, destinationFloors = [0, 4, 8],
         state = MOVING_DOWN, direction = DOWN\<rparr> = Some 4"
proof -
  let ?u = "addDestination elevator_3_up_7 5"
  let ?d = "\<lparr>elev_id = 1, currentFloor = 6, destinationFloors = [0, 4, 8],
             state = MOVING_DOWN, direction = DOWN\<rparr>"
  have u: "direction ?u = UP \<and> (\<exists>d\<in>set (destinationFloors ?u). d > currentFloor ?u)"
    by (simp add: elevator_defs elevator_3_up_7_def)
  have d: "direction ?d = DOWN \<and> (\<exists>d\<in>set (destinationFloors ?d). d < currentFloor ?d)"
    by simp
  have su: "{d \<in> set (destinationFloors ?u). d > currentFloor ?u} = {7, 5}"
    by (auto simp: elevator_defs elevator_3_up_7_def)
  have sd: "{d \<in> set (destinationFloors ?d). d < currentFloor ?d} = {0, 4}"
    by auto
  from getNextDestination_ahead_first [of ?u] u
  have "getNextDestination ?u = Some (Min {d \<in> set (destinationFloors ?u). d > currentFloor ?u})"
    by blast
  moreover from getNextDestination_ahead_first [of ?d] d
  have "getNextDestination ?d = Some (Max {d \<in> set (destinationFloors ?d). d < currentFloor ?d})"
    by blast
  ultimately show ?thesis unfolding su sd by simp
qed

lemma move_None: "getNextDestination e = None \<Longrightarrow> move e = (e, False)"
  by (simp add: move_def)

lemma move_Some:
  assumes "getNextDestination e = Some nd"
  shows "snd (move e) = True"
    and "currentFloor (fst (move e)) =
           (if nd > currentFloor e then currentFloor e + 1
            else if nd < currentFloor e then currentFloor e - 1
            else currentFloor e)"
    and "destinationFloors (fst (move e)) =
           (if currentFloor (fst (move e)) = nd then set_delete nd (destinationFloors e)
            else destinationFloors e)"
    and "updateDirection (fst (move e)) = fst (move e)"
    and "elev_id (fst (move e)) = elev_id e"
  using assms by (auto simp: move_def Let_def removeDestination_def updateDirection_idem)

lemma move_direction_ok: "direction_ok e \<Longrightarrow> direction_ok (fst (move e))"
  by (cases "getNextDestination e")
     (auto simp: move_def Let_def updateDirection_ok)

lemma move_at_most_one: "\<bar>currentFloor (fst (move e)) - currentFloor e\<bar> \<le> 1"
  by (cases "getNextDestination e") (auto simp: move_def Let_def removeDestination_def)

lemma getNextDestination_explicit:
  "getNextDestination e =
     (if destinationFloors e = [] then None
      else if direction e = UP \<and> (\<exists>d\<in>set (destinationFloors e). d > currentFloor e)
        then Some (Min {d \<in> set (destinationFloors e). d > currentFloor e})
      else if direction e = DOWN \<and> (\<exists>d\<in>set (destinationFloors e). d < currentFloor e)
        then Some (Max {d \<in> set (destinationFloors e). d < currentFloor e})
      else Some (hd (destinationFloors e)))"
proof -
  consider (none) "destinationFloors e = []"
    | (up) "direction e = UP" "\<exists>d\<in>set (destinationFloors e). d > currentFloor e"
    | (down) "direction e = DOWN" "\<exists>d\<in>set (destinationFloors e). d < currentFloor e"
    | (first) "destinationFloors e \<noteq> []"
        "\<not> (direction e = UP \<and> (\<exists>d\<in>set (destinationFloors e). d > currentFloor e))"
        "\<not> (direction e = DOWN \<and> (\<exists>d\<in>set (destinationFloors e). d < currentFloor e))"
    by blast
  then show ?thesis
  proof cases
    case none
    then show ?thesis by (simp add: getNextDestination_def)
  next
    case up
    then have "destinationFloors e \<noteq> []" by auto
    then show ?thesis using up getNextDestination_UP [of e] by simp
  next
    case down
    then have "destinationFloors e \<noteq> []" by auto
    then show ?thesis using down getNextDestination_DOWN [of e] by auto
  next
    case first
    have "direction e = UP \<Longrightarrow> filter (\<lambda>f. f > currentFloor e) (destinationFloors e) = []"
      using first(2) by (auto simp: filter_empty_conv)
    moreover
    have "direction e = DOWN \<Longrightarrow> filter (\<lambda>f. f < currentFloor e) (destinationFloors e) = []"
      using first(3) by (auto simp: filter_empty_conv)
    ultimately have "getNextDestination e = Some (hd (destinationFloors e))"
      using first(1) by (auto simp: getNextDestination_def)
    then show ?thesis using first by auto
  qed
qed

lemma updateDirection_explicit:
  "updateDirection e =
     e\<lparr>state := (case getNextDestination e of
                   None \<Rightarrow> STATE_IDLE
                 | Some n \<Rightarrow> if n > currentFloor e then MOVING_UP
                             else if n < currentFloor e then MOVING_DOWN else STATE_IDLE),
       direction := (case getNextDestination e of
                       None \<Rightarrow> IDLE
                     | Some n \<Rightarrow> if n > currentFloor e then UP
                                 else if n < currentFloor e then DOWN else IDLE)\<rparr>"
proof (cases "getNextDestination e")
  case None
  then have "destinationFloors e = []" by (simp add: getNextDestination_None)
  then show ?thesis using None by (simp add: updateDirection_def)
next
  case (Some n)
  then have "destinationFloors e \<noteq> []" using getNextDestination_None [of e] by auto
  then show ?thesis using Some by (simp add: updateDirection_def)
qed

lemma updateDirection_direction:
  "direction (updateDirection y) =
     (case getNextDestination y of
        None \<Rightarrow> IDLE
      | Some n \<Rightarrow> if n > currentFloor y then UP
                  else if n < currentFloor y then DOWN else IDLE)"
  by (subst updateDirection_explicit) simp

lemma updateDirection_state:
  "state (updateDirection y) =
     (case direction (updateDirection y) of
        UP \<Rightarrow> MOVING_UP | DOWN \<Rightarrow> MOVING_DOWN | IDLE \<Rightarrow> STATE_IDLE)"
  by (subst (1 2) updateDirection_explicit) (simp split: option.split)

lemma move_exact:
  assumes "getNextDestination e = Some nd"
  shows "move e =
           (updateDirection
              (e\<lparr>currentFloor :=
                    (if nd > currentFloor e then currentFloor e + 1
                     else if nd < currentFloor e then currentFloor e - 1
                     else currentFloor e),
                  destinationFloors :=
                    (if (if nd > currentFloor e then currentFloor e + 1
                         else if nd < currentFloor e then currentFloor e - 1
                         else currentFloor e) = nd
                       then filter (\<lambda>d. d \<noteq> nd) (destinationFloors e)
                     else destinationFloors e)\<rparr>), True)"
  using assms
  by (auto simp: move_def Let_def removeDestination_def updateDirection_idem set_delete_def)

text \<open>
  C4, as the code has it. \<open>getNextDestination\<close> is: nothing when there are no
  destinations; for direction UP the least destination above the floor, for direction DOWN
  the greatest below it, when there is one; otherwise the first destination inserted.
  \<open>move\<close> returns false and changes nothing when there is no next destination.
  Otherwise it returns true; it moves \<open>currentFloor\<close> one floor towards the next
  destination when that is another floor, and leaves \<open>currentFloor\<close> where it is when
  the next destination is the floor the elevator is at; it removes exactly the next
  destination from \<open>destinationFloors\<close> when \<open>currentFloor\<close> then equals it; and it
  leaves the direction recomputed from the new floor and destinations: UP when the next
  destination, taken with the direction before the call, is above the new floor, DOWN when
  it is below, IDLE when there is none or it is the new floor; \<open>state\<close> follows.
\<close>

theorem move_one_step:
  "getNextDestination x =
     (if destinationFloors x = [] then None
      else if direction x = UP \<and> (\<exists>d\<in>set (destinationFloors x). d > currentFloor x)
        then Some (Min {d \<in> set (destinationFloors x). d > currentFloor x})
      else if direction x = DOWN \<and> (\<exists>d\<in>set (destinationFloors x). d < currentFloor x)
        then Some (Max {d \<in> set (destinationFloors x). d < currentFloor x})
      else Some (hd (destinationFloors x)))
   \<and> (getNextDestination e = None \<longrightarrow> move e = (e, False))
   \<and> (getNextDestination e = Some nd \<longrightarrow>
        snd (move e) = True
      \<and> currentFloor (fst (move e)) =
           (if nd > currentFloor e then currentFloor e + 1
            else if nd < currentFloor e then currentFloor e - 1
            else currentFloor e)
      \<and> (nd \<noteq> currentFloor e \<longrightarrow>
           \<bar>nd - currentFloor (fst (move e))\<bar> = \<bar>nd - currentFloor e\<bar> - 1)
      \<and> destinationFloors (fst (move e)) =
           (if currentFloor (fst (move e)) = nd
              then filter (\<lambda>d. d \<noteq> nd) (destinationFloors e)
            else destinationFloors e)
      \<and> elev_id (fst (move e)) = elev_id e
      \<and> direction (fst (move e)) =
           (case getNextDestination
                   (e\<lparr>currentFloor := currentFloor (fst (move e)),
                      destinationFloors := destinationFloors (fst (move e))\<rparr>) of
              None \<Rightarrow> IDLE
            | Some n \<Rightarrow> if n > currentFloor (fst (move e)) then UP
                        else if n < currentFloor (fst (move e)) then DOWN else IDLE)
      \<and> state (fst (move e)) =
           (case direction (fst (move e)) of
              UP \<Rightarrow> MOVING_UP | DOWN \<Rightarrow> MOVING_DOWN | IDLE \<Rightarrow> STATE_IDLE)
      \<and> updateDirection (fst (move e)) = fst (move e))"
proof (intro conjI impI)
  show "getNextDestination x =
     (if destinationFloors x = [] then None
      else if direction x = UP \<and> (\<exists>d\<in>set (destinationFloors x). d > currentFloor x)
        then Some (Min {d \<in> set (destinationFloors x). d > currentFloor x})
      else if direction x = DOWN \<and> (\<exists>d\<in>set (destinationFloors x). d < currentFloor x)
        then Some (Max {d \<in> set (destinationFloors x). d < currentFloor x})
      else Some (hd (destinationFloors x)))"
    by (rule getNextDestination_explicit)
next
  assume "getNextDestination e = None"
  then show "move e = (e, False)" by (rule move_None)
next
  assume nd: "getNextDestination e = Some nd"
  define c where "c = (if nd > currentFloor e then currentFloor e + 1
                       else if nd < currentFloor e then currentFloor e - 1
                       else currentFloor e)"
  define ds where "ds = (if c = nd then filter (\<lambda>d. d \<noteq> nd) (destinationFloors e)
                         else destinationFloors e)"
  let ?e2 = "e\<lparr>currentFloor := c, destinationFloors := ds\<rparr>"
  have ex: "fst (move e) = updateDirection ?e2"
    using move_exact [OF nd] by (simp add: c_def ds_def)
  show "snd (move e) = True" using nd by (rule move_Some)
  have cf: "currentFloor (fst (move e)) = c" by (simp add: ex)
  have df: "destinationFloors (fst (move e)) = ds" by (simp add: ex)
  show "currentFloor (fst (move e)) =
           (if nd > currentFloor e then currentFloor e + 1
            else if nd < currentFloor e then currentFloor e - 1
            else currentFloor e)"
    unfolding cf by (rule c_def)
  show "destinationFloors (fst (move e)) =
           (if currentFloor (fst (move e)) = nd
              then filter (\<lambda>d. d \<noteq> nd) (destinationFloors e)
            else destinationFloors e)"
    unfolding cf df by (rule ds_def)
  show "elev_id (fst (move e)) = elev_id e" by (simp add: ex)
  show "updateDirection (fst (move e)) = fst (move e)" using nd by (rule move_Some)
  have "direction (fst (move e)) = direction (updateDirection ?e2)" by (simp only: ex)
  also have "\<dots> = (case getNextDestination ?e2 of
                       None \<Rightarrow> IDLE
                     | Some n \<Rightarrow> if n > currentFloor ?e2 then UP
                                 else if n < currentFloor ?e2 then DOWN else IDLE)"
    by (rule updateDirection_direction)
  also have "currentFloor ?e2 = c" by simp
  finally show "direction (fst (move e)) =
           (case getNextDestination
                   (e\<lparr>currentFloor := currentFloor (fst (move e)),
                      destinationFloors := destinationFloors (fst (move e))\<rparr>) of
              None \<Rightarrow> IDLE
            | Some n \<Rightarrow> if n > currentFloor (fst (move e)) then UP
                        else if n < currentFloor (fst (move e)) then DOWN else IDLE)"
    unfolding cf df .
  show "state (fst (move e)) =
           (case direction (fst (move e)) of
              UP \<Rightarrow> MOVING_UP | DOWN \<Rightarrow> MOVING_DOWN | IDLE \<Rightarrow> STATE_IDLE)"
    unfolding ex by (rule updateDirection_state)
  assume "nd \<noteq> currentFloor e"
  then show "\<bar>nd - currentFloor (fst (move e))\<bar> = \<bar>nd - currentFloor e\<bar> - 1"
    unfolding cf by (auto simp: c_def)
qed

theorem move_one_step_witness:
  "move (Elevator_new 0) = (Elevator_new 0, False)
   \<and> snd (move elevator_5_up_3_7) = True
   \<and> currentFloor (fst (move elevator_5_up_3_7)) = 6
   \<and> destinationFloors (fst (move elevator_5_up_3_7)) = [3, 7]
   \<and> direction (fst (move elevator_5_up_3_7)) = UP
   \<and> state (fst (move elevator_5_up_3_7)) = MOVING_UP
   \<and> currentFloor (fst (move elevator_6_up_7_3)) = 7
   \<and> destinationFloors (fst (move elevator_6_up_7_3)) = [3]
   \<and> direction (fst (move elevator_6_up_7_3)) = DOWN
   \<and> state (fst (move elevator_6_up_7_3)) = MOVING_DOWN"
proof -
  let ?u = "elevator_5_up_3_7"
  let ?v = "elevator_6_up_7_3"
  have n: "getNextDestination (Elevator_new 0) = None" by code_simp
  have u: "getNextDestination ?u = Some 7" "currentFloor ?u = 5" "destinationFloors ?u = [3, 7]"
    by code_simp+
  have v: "getNextDestination ?v = Some 7" "currentFloor ?v = 6" "destinationFloors ?v = [7, 3]"
    by code_simp+
  have u2: "getNextDestination (?u\<lparr>currentFloor := 6, destinationFloors := [3, 7]\<rparr>) = Some 7"
    by code_simp
  have v2: "getNextDestination (?v\<lparr>currentFloor := 7, destinationFloors := [3]\<rparr>) = Some 3"
    by code_simp
  from move_one_step [of _ "Elevator_new 0" 0] n
  have a: "move (Elevator_new 0) = (Elevator_new 0, False)" by blast
  from move_one_step [of _ ?u 7] u(1)
  have tu: "snd (move ?u) = True"
    "currentFloor (fst (move ?u)) =
       (if 7 > currentFloor ?u then currentFloor ?u + 1
        else if 7 < currentFloor ?u then currentFloor ?u - 1 else currentFloor ?u)"
    "destinationFloors (fst (move ?u)) =
       (if currentFloor (fst (move ?u)) = 7 then filter (\<lambda>d. d \<noteq> 7) (destinationFloors ?u)
        else destinationFloors ?u)"
    "direction (fst (move ?u)) =
       (case getNextDestination
               (?u\<lparr>currentFloor := currentFloor (fst (move ?u)),
                   destinationFloors := destinationFloors (fst (move ?u))\<rparr>) of
          None \<Rightarrow> IDLE
        | Some n \<Rightarrow> if n > currentFloor (fst (move ?u)) then UP
                    else if n < currentFloor (fst (move ?u)) then DOWN else IDLE)"
    "state (fst (move ?u)) =
       (case direction (fst (move ?u)) of
          UP \<Rightarrow> MOVING_UP | DOWN \<Rightarrow> MOVING_DOWN | IDLE \<Rightarrow> STATE_IDLE)"
    by blast+
  have cu: "currentFloor (fst (move ?u)) = 6" using tu(2) by (simp add: u)
  have du: "destinationFloors (fst (move ?u)) = [3, 7]" using tu(3) by (simp add: cu u)
  have ru: "direction (fst (move ?u)) = UP" using tu(4) by (simp add: cu du u2)
  have su: "state (fst (move ?u)) = MOVING_UP" using tu(5) by (simp add: ru)
  from move_one_step [of _ ?v 7] v(1)
  have tv:
    "currentFloor (fst (move ?v)) =
       (if 7 > currentFloor ?v then currentFloor ?v + 1
        else if 7 < currentFloor ?v then currentFloor ?v - 1 else currentFloor ?v)"
    "destinationFloors (fst (move ?v)) =
       (if currentFloor (fst (move ?v)) = 7 then filter (\<lambda>d. d \<noteq> 7) (destinationFloors ?v)
        else destinationFloors ?v)"
    "direction (fst (move ?v)) =
       (case getNextDestination
               (?v\<lparr>currentFloor := currentFloor (fst (move ?v)),
                   destinationFloors := destinationFloors (fst (move ?v))\<rparr>) of
          None \<Rightarrow> IDLE
        | Some n \<Rightarrow> if n > currentFloor (fst (move ?v)) then UP
                    else if n < currentFloor (fst (move ?v)) then DOWN else IDLE)"
    "state (fst (move ?v)) =
       (case direction (fst (move ?v)) of
          UP \<Rightarrow> MOVING_UP | DOWN \<Rightarrow> MOVING_DOWN | IDLE \<Rightarrow> STATE_IDLE)"
    by blast+
  have cv: "currentFloor (fst (move ?v)) = 7" using tv(1) by (simp add: v)
  have dv: "destinationFloors (fst (move ?v)) = [3]" using tv(2) by (simp add: cv v)
  have rv: "direction (fst (move ?v)) = DOWN" using tv(3) by (simp add: cv dv v2)
  have sv: "state (fst (move ?v)) = MOVING_DOWN" using tv(4) by (simp add: rv)
  show ?thesis using a tu(1) cu du ru su cv dv rv sv by blast
qed

text \<open>
  The claim as first stated fails where the next destination is the floor the elevator
  is at: the elevator at floor 0 that was given floor 0 has a next destination, and
  \<open>move\<close> returns true, but \<open>currentFloor\<close> stays 0.
\<close>

theorem move_without_movement:
  "getNextDestination (addDestination (Elevator_new 0) 0) = Some 0
   \<and> snd (move (addDestination (Elevator_new 0) 0)) = True
   \<and> currentFloor (fst (move (addDestination (Elevator_new 0) 0)))
       = currentFloor (addDestination (Elevator_new 0) 0)"
  by (simp add: elevator_defs Elevator_new_def)

section \<open>What every reachable building satisfies\<close>

lemma set_add_set [simp]: "set (set_add f ds) = insert f (set ds)"
  by (auto simp: set_add_def)

lemma set_delete_set [simp]: "set (set_delete f ds) = set ds - {f}"
  by (auto simp: set_delete_def)

lemma addDestination_fields [simp]:
  "currentFloor (addDestination e f) = currentFloor e"
  "destinationFloors (addDestination e f) = set_add f (destinationFloors e)"
  "elev_id (addDestination e f) = elev_id e"
  by (simp_all add: addDestination_def)

lemma removeDestination_fields [simp]:
  "currentFloor (removeDestination e f) = currentFloor e"
  "destinationFloors (removeDestination e f) = set_delete f (destinationFloors e)"
  "elev_id (removeDestination e f) = elev_id e"
  by (simp_all add: removeDestination_def)

lemma addDestination_ok: "direction_ok (addDestination e f)"
  by (simp add: addDestination_def updateDirection_ok)

lemma removeDestination_ok: "direction_ok (removeDestination e f)"
  by (simp add: removeDestination_def updateDirection_ok)

lemma addDestination_inv:
  "elevator_inv tf e \<Longrightarrow> 0 \<le> f \<Longrightarrow> f < tf \<Longrightarrow> elevator_inv tf (addDestination e f)"
  by (simp add: elevator_inv_def addDestination_ok)

lemma move_elev_id [simp]: "elev_id (fst (move e)) = elev_id e"
  by (cases "getNextDestination e") (simp_all add: move_None move_Some)

lemma move_inv:
  assumes "elevator_inv tf e"
  shows "elevator_inv tf (fst (move e))"
proof (cases "getNextDestination e")
  case None
  then show ?thesis using assms by (simp add: move_None)
next
  case (Some nd)
  have nd: "0 \<le> nd" "nd < tf"
    using getNextDestination_mem [OF Some] assms by (auto simp: elevator_inv_def)
  have cur: "0 \<le> currentFloor e" "currentFloor e < max 1 tf"
    using assms by (auto simp: elevator_inv_def)
  have "0 \<le> currentFloor (fst (move e)) \<and> currentFloor (fst (move e)) < max 1 tf"
    using nd cur by (simp add: move_Some(2) [OF Some])
  moreover have "\<forall>d\<in>set (destinationFloors (fst (move e))). 0 \<le> d \<and> d < tf"
    using assms by (auto simp: move_Some(3) [OF Some] elevator_inv_def)
  moreover have "direction_ok (fst (move e))"
    using assms by (simp add: move_direction_ok elevator_inv_def)
  ultimately show ?thesis by (simp add: elevator_inv_def)
qed

lemma building_inv_length_floors: "building_inv tf te b \<Longrightarrow> length (floors b) = nat tf"
  by (auto simp: building_inv_def dest: arg_cong [where f = length])

lemma building_inv_length_elevators: "building_inv tf te b \<Longrightarrow> length (elevators b) = nat te"
  by (auto simp: building_inv_def dest: arg_cong [where f = length])

lemma floor_at_inv:
  assumes "building_inv tf te b" "0 \<le> i" "i < tf"
  shows "\<exists>fl. floor_at b i = Some fl \<and> number fl = i"
proof -
  have len: "length (floors b) = nat tf" using assms(1) by (rule building_inv_length_floors)
  have "map number (floors b) ! nat i = map int [0..<nat tf] ! nat i"
    using assms(1) by (simp add: building_inv_def)
  then have "number (floors b ! nat i) = i" using assms(2,3) len by simp
  then show ?thesis using assms(2,3) len by (simp add: floor_at_def)
qed

lemma floor_at_None_inv:
  "building_inv tf te b \<Longrightarrow> 0 \<le> i \<Longrightarrow> floor_at b i = None \<Longrightarrow> tf \<le> i"
  using floor_at_inv [of tf te b i] by (cases "i < tf") auto

lemma floor_put_inv:
  assumes "building_inv tf te b" "floor_at b i = Some fl" "number fl' = number fl"
  shows "building_inv tf te (floor_put b i fl')"
proof -
  have i: "0 \<le> i" "nat i < length (floors b)" "floors b ! nat i = fl"
    using assms(2) by (auto simp: floor_at_def split: if_splits)
  have "map number ((floors b)[nat i := fl']) = (map number (floors b))[nat i := number fl]"
    using assms(3) by (simp add: map_update)
  also have "\<dots> = map number (floors b)"
    using i by (metis list_update_id map_update)
  finally show ?thesis using assms(1) by (simp add: floor_put_def building_inv_def)
qed

lemma floor_put_fields [simp]:
  "elevators (floor_put b i fl) = elevators b"
  "pendingRequests (floor_put b i fl) = pendingRequests b"
  "totalFloors (floor_put b i fl) = totalFloors b"
  by (simp_all add: floor_put_def)

lemma button_number [simp]:
  "number (pressUpButton fl) = number fl"
  "number (pressDownButton fl) = number fl"
  "number (releaseUpButton fl) = number fl"
  "number (releaseDownButton fl) = number fl"
  by (simp_all add: pressUpButton_def pressDownButton_def releaseUpButton_def releaseDownButton_def)

lemma set_remove_first: "set (remove_first P xs) \<subseteq> set xs"
  by (induction xs) auto

lemma pending_inv:
  assumes "building_inv tf te b" "set ps \<subseteq> set (pendingRequests b)"
  shows "building_inv tf te (b\<lparr>pendingRequests := ps\<rparr>)"
  using assms by (auto simp: building_inv_def)

lemma elevator_put_inv:
  assumes "building_inv tf te b" "i < length (elevators b)" "elevator_inv tf e'"
    "elev_id e' = elev_id (elevators b ! i)"
  shows "building_inv tf te (b\<lparr>elevators := (elevators b)[i := e']\<rparr>)"
proof -
  have "map elev_id ((elevators b)[i := e']) = (map elev_id (elevators b))[i := elev_id (elevators b ! i)]"
    using assms(4) by (simp add: map_update)
  also have "\<dots> = map elev_id (elevators b)"
    using assms(2) by (metis list_update_id map_update)
  finally have ids: "map elev_id ((elevators b)[i := e']) = map elev_id (elevators b)" .
  have "\<forall>e\<in>set ((elevators b)[i := e']). elevator_inv tf e"
    using assms(1,3) set_update_subset_insert [of "elevators b" i e']
    by (auto simp: building_inv_def)
  then show ?thesis using assms(1) ids by (simp add: building_inv_def)
qed

lemma removePendingRequest_inv:
  assumes "building_inv tf te b" "0 \<le> req_floor r" "req_floor r < tf"
  shows "\<exists>b'. removePendingRequest b r = Inr b' \<and> building_inv tf te b'
              \<and> elevators b' = elevators b"
proof -
  let ?b1 = "b\<lparr>pendingRequests := remove_first (same_request r) (pendingRequests b)\<rparr>"
  have b1: "building_inv tf te ?b1"
    using assms(1) by (rule pending_inv) (simp add: set_remove_first)
  obtain fl where fl: "floor_at ?b1 (req_floor r) = Some fl"
    using floor_at_inv [OF b1 assms(2,3)] by blast
  have "building_inv tf te (floor_put ?b1 (req_floor r)
          (if req_direction r = UP then releaseUpButton fl else releaseDownButton fl))"
    using b1 fl by (rule floor_put_inv) simp
  then show ?thesis using b1 fl by (simp add: removePendingRequest_def Let_def)
qed

lemma foldl_better_mem: "foldl (better b r) x xs \<in> set (x # xs)"
proof (induction xs arbitrary: x)
  case Nil
  then show ?case by simp
next
  case (Cons y ys)
  have "better b r x y = x \<or> better b r x y = y" by (simp add: better_def Let_def)
  then show ?case using Cons [of "better b r x y"] by auto
qed

lemma bestElevator_available:
  assumes "availableElevators b r \<noteq> []"
  shows "bestElevator b r \<in> set (availableElevators b r)"
proof -
  have "bestElevator b r \<in> set (hd (availableElevators b r) # tl (availableElevators b r))"
    unfolding bestElevator_def by (rule foldl_better_mem)
  then show ?thesis using assms by simp
qed

lemma bestElevator_less:
  "availableElevators b r \<noteq> [] \<Longrightarrow> bestElevator b r < length (elevators b)"
  using bestElevator_available [of b r] by (auto simp: availableElevators_def)

lemma assignRequestToElevator_inv:
  assumes "building_inv tf te b" "0 \<le> req_floor r" "req_floor r < tf"
  shows "\<exists>b'. assignRequestToElevator b r = Inr b' \<and> building_inv tf te b'"
proof (cases "availableElevators b r = []")
  case True
  then show ?thesis using assms(1) by (simp add: assignRequestToElevator_def)
next
  case False
  let ?i = "bestElevator b r"
  let ?b1 = "b\<lparr>elevators := (elevators b)[?i := addDestination (elevators b ! ?i) (req_floor r)]\<rparr>"
  have i: "?i < length (elevators b)" using False by (rule bestElevator_less)
  then have "elevator_inv tf (elevators b ! ?i)"
    using assms(1) by (simp add: building_inv_def)
  then have "elevator_inv tf (addDestination (elevators b ! ?i) (req_floor r))"
    using assms(2,3) by (rule addDestination_inv)
  then have "building_inv tf te ?b1"
    using assms(1) i by (intro elevator_put_inv) simp_all
  then obtain b' where "removePendingRequest ?b1 r = Inr b'" "building_inv tf te b'"
    using removePendingRequest_inv [of tf te ?b1 r] assms(2,3) by blast
  then show ?thesis using False by (simp add: assignRequestToElevator_def Let_def)
qed

lemma requestElevator_inv:
  assumes "building_inv tf te b"
  shows "\<exists>b'. requestElevator b f d = Inr b' \<and> building_inv tf te b'"
proof (cases "f < 0 \<or> f \<ge> totalFloors b \<or> (f = 0 \<and> d = DOWN) \<or> (f = totalFloors b - 1 \<and> d = UP)")
  case True
  then show ?thesis using assms by (auto simp: requestElevator_def)
next
  case False
  then have f: "0 \<le> f" "f < tf" using assms by (auto simp: building_inv_def)
  let ?r = "\<lparr>req_floor = f, req_direction = d\<rparr>"
  let ?b1 = "b\<lparr>pendingRequests := pendingRequests b @ [?r]\<rparr>"
  have b1: "building_inv tf te ?b1" using assms f by (auto simp: building_inv_def)
  obtain fl where fl: "floor_at ?b1 f = Some fl" using floor_at_inv [OF b1 f] by blast
  let ?b2 = "floor_put ?b1 f (if d = UP then pressUpButton fl else pressDownButton fl)"
  have "building_inv tf te ?b2" using b1 fl by (rule floor_put_inv) simp
  then obtain b' where "assignRequestToElevator ?b2 ?r = Inr b'" "building_inv tf te b'"
    using assignRequestToElevator_inv [of tf te ?b2 ?r] f by auto
  then show ?thesis using False fl by (auto simp: requestElevator_def Let_def)
qed

lemma requestElevatorFloor_inv:
  assumes "building_inv tf te b"
  shows "building_inv tf te (requestElevatorFloor b i f)"
proof (cases "0 \<le> f \<and> f < totalFloors b \<and> 0 \<le> i \<and> i < int (length (elevators b))")
  case False
  then show ?thesis using assms by (auto simp: requestElevatorFloor_def)
next
  case True
  then have f: "0 \<le> f" "f < tf" and i: "nat i < length (elevators b)"
    using assms by (auto simp: building_inv_def)
  have "elevator_inv tf (elevators b ! nat i)" using assms i by (simp add: building_inv_def)
  then have "elevator_inv tf (addDestination (elevators b ! nat i) f)"
    using f by (rule addDestination_inv)
  then have "building_inv tf te
      (b\<lparr>elevators := (elevators b)[nat i := addDestination (elevators b ! nat i) f]\<rparr>)"
    using assms i by (intro elevator_put_inv) simp_all
  then show ?thesis using True by (simp add: requestElevatorFloor_def)
qed

lemma forEach_pending_inv:
  "building_inv tf te b \<Longrightarrow> \<exists>b'. forEach_pending k len b = Inr b' \<and> building_inv tf te b'"
proof (induction k len b rule: forEach_pending.induct)
  case (1 k len b)
  show ?case
  proof (cases "k < len")
    case False
    then show ?thesis using "1.prems" by (simp add: forEach_pending.simps [of k len b])
  next
    case k: True
    show ?thesis
    proof (cases "k < length (pendingRequests b)")
      case False
      then show ?thesis
        using k "1.IH"(2) [OF k False "1.prems"]
        by (simp add: forEach_pending.simps [of k len b])
    next
      case True
      then have "pendingRequests b ! k \<in> set (pendingRequests b)" by simp
      then have "0 \<le> req_floor (pendingRequests b ! k)" "req_floor (pendingRequests b ! k) < tf"
        using "1.prems" by (auto simp: building_inv_def)
      then obtain b1 where b1: "assignRequestToElevator b (pendingRequests b ! k) = Inr b1"
        "building_inv tf te b1"
        using assignRequestToElevator_inv [OF "1.prems"] by blast
      then show ?thesis
        using k True "1.IH"(1) [OF k True b1(1) b1(2)]
        by (simp add: forEach_pending.simps [of k len b])
    qed
  qed
qed

lemma arrival_inv:
  assumes "building_inv tf te b" "elevator_inv tf e"
  shows "case arrival b e of
           Inr b' \<Rightarrow> building_inv tf te b' \<and> elevators b' = elevators b
         | Inl err \<Rightarrow> tf \<le> 0"
proof (cases "0 < tf")
  case False
  have "floor_at b (currentFloor e) = None"
    using False building_inv_length_floors [OF assms(1)] by (simp add: floor_at_def)
  then show ?thesis using False by (simp add: arrival_def)
next
  case True
  let ?c = "currentFloor e"
  have c: "0 \<le> ?c" "?c < tf" using assms(2) True by (auto simp: elevator_inv_def)
  obtain fl where fl: "floor_at b ?c = Some fl" using floor_at_inv [OF assms(1) c] by blast
  have up: "\<exists>b1. removePendingRequest (floor_put b ?c (releaseUpButton fl))
                  \<lparr>req_floor = ?c, req_direction = UP\<rparr> = Inr b1
               \<and> building_inv tf te b1 \<and> elevators b1 = elevators b"
  proof -
    have "building_inv tf te (floor_put b ?c (releaseUpButton fl))"
      using assms(1) fl by (rule floor_put_inv) simp
    from removePendingRequest_inv [OF this, of "\<lparr>req_floor = ?c, req_direction = UP\<rparr>"] c
    show ?thesis by auto
  qed
  have dn: "case (case floor_at b1 ?c of
                    None \<Rightarrow> Inl TypeError
                  | Some fl1 \<Rightarrow>
                      if downButtonPressed fl1 \<and> direction e = DOWN
                        then removePendingRequest (floor_put b1 ?c (releaseDownButton fl1))
                               \<lparr>req_floor = ?c, req_direction = DOWN\<rparr>
                      else Inr b1) of
              Inr b' \<Rightarrow> building_inv tf te b' \<and> elevators b' = elevators b
            | Inl err \<Rightarrow> tf \<le> 0"
    if b1: "building_inv tf te b1" "elevators b1 = elevators b" for b1
  proof -
    obtain fl1 where fl1: "floor_at b1 ?c = Some fl1" using floor_at_inv [OF b1(1) c] by blast
    have "building_inv tf te (floor_put b1 ?c (releaseDownButton fl1))"
      using b1(1) fl1 by (rule floor_put_inv) simp
    from removePendingRequest_inv [OF this, of "\<lparr>req_floor = ?c, req_direction = DOWN\<rparr>"] c
    show ?thesis using fl1 b1 by auto
  qed
  show ?thesis
  proof (cases "upButtonPressed fl \<and> direction e = UP")
    case True
    from up obtain b1 where b1: "removePendingRequest (floor_put b ?c (releaseUpButton fl))
                  \<lparr>req_floor = ?c, req_direction = UP\<rparr> = Inr b1"
      "building_inv tf te b1" "elevators b1 = elevators b" by blast
    show ?thesis using dn [OF b1(2,3)] True fl b1(1) by (simp add: arrival_def)
  next
    case False
    show ?thesis using dn [OF assms(1) refl] False fl by (auto simp: arrival_def)
  qed
qed

lemma arrivals_inv:
  assumes "building_inv tf te b" "\<forall>e\<in>set es. elevator_inv tf e"
  shows "case arrivals es b of
           Inr b' \<Rightarrow> building_inv tf te b' \<and> elevators b' = elevators b
         | Inl err \<Rightarrow> tf \<le> 0"
  using assms
proof (induction es arbitrary: b)
  case Nil
  then show ?case by simp
next
  case (Cons e es)
  show ?case
  proof (cases "arrival b e")
    case (Inl err)
    then show ?thesis using arrival_inv [of tf te b e] Cons.prems by simp
  next
    case (Inr b1)
    then have b1: "building_inv tf te b1" "elevators b1 = elevators b"
      using arrival_inv [of tf te b e] Cons.prems by simp_all
    from Cons.IH [OF b1(1)] Cons.prems(2) show ?thesis
      using Inr b1(2) by (auto split: sum.splits)
  qed
qed

lemma move_all_inv:
  assumes "building_inv tf te b"
  shows "building_inv tf te (move_all b)"
proof -
  have "elev_id \<circ> (\<lambda>e. fst (move e)) = elev_id"
    by (rule ext) simp
  then have "map elev_id (map (\<lambda>e. fst (move e)) (elevators b)) = map elev_id (elevators b)"
    by simp
  moreover have "\<forall>e\<in>set (map (\<lambda>e. fst (move e)) (elevators b)). elevator_inv tf e"
    using assms by (auto simp: building_inv_def move_inv)
  ultimately show ?thesis using assms by (simp add: move_all_def building_inv_def del: map_map)
qed

lemma update_inv:
  assumes "building_inv tf te b"
  shows "case update b of Inr b' \<Rightarrow> building_inv tf te b' | Inl err \<Rightarrow> tf \<le> 0"
proof -
  have "building_inv tf te (move_all b)" using assms by (rule move_all_inv)
  then obtain b2 where b2: "assign_pending (move_all b) = Inr b2" "building_inv tf te b2"
    unfolding assign_pending_def using forEach_pending_inv by blast
  have "\<forall>e\<in>set (elevators b2). elevator_inv tf e" using b2(2) by (simp add: building_inv_def)
  from arrivals_inv [OF b2(2) this] show ?thesis
    using b2(1) by (simp add: update_def checkElevatorArrivals_def split: sum.splits)
qed

lemma Elevator_new_inv: "elevator_inv tf (Elevator_new i)"
  by (simp add: elevator_inv_def direction_ok_def Elevator_new_def getNextDestination_def)

lemma Elevator_new_id [simp]: "elev_id (Elevator_new i) = i"
  by (simp add: Elevator_new_def)

lemma Building_new_inv: "building_inv tf te (Building_new tf te)"
  by (simp add: building_inv_def Building_new_def Elevator_new_inv Floor_new_def comp_def)

lemma reset_new:
  assumes "building_inv tf te b"
  shows "reset b = Building_new tf te"
proof -
  have lf: "length (floors b) = nat tf" using assms by (rule building_inv_length_floors)
  have le: "length (elevators b) = nat te" using assms by (rule building_inv_length_elevators)
  have nf: "number (floors b ! i) = int i" if "i < nat tf" for i
  proof -
    have "map number (floors b) ! i = map int [0..<nat tf] ! i"
      using assms by (simp add: building_inv_def)
    then show ?thesis using that lf by simp
  qed
  have ne: "elev_id (elevators b ! i) = int i" if "i < nat te" for i
  proof -
    have "map elev_id (elevators b) ! i = map int [0..<nat te] ! i"
      using assms by (simp add: building_inv_def)
    then show ?thesis using that le by simp
  qed
  have f: "map (\<lambda>fl. releaseDownButton (releaseUpButton fl)) (floors b)
             = map (\<lambda>i. Floor_new (int i)) [0..<nat tf]"
    using lf nf
    by (intro nth_equalityI) (simp_all add: releaseDownButton_def releaseUpButton_def Floor_new_def)
  have e: "map (\<lambda>e. e\<lparr>currentFloor := 0, destinationFloors := [],
                         state := STATE_IDLE, direction := IDLE\<rparr>) (elevators b)
             = map (\<lambda>i. Elevator_new (int i)) [0..<nat te]"
    using le ne by (intro nth_equalityI) (simp_all add: Elevator_new_def)
  show ?thesis
    unfolding reset_def f e using assms by (simp add: Building_new_def building_inv_def)
qed

lemma reset_inv: "building_inv tf te b \<Longrightarrow> building_inv tf te (reset b)"
  by (simp add: reset_new Building_new_inv)

lemma apply_op_inv:
  assumes "building_inv tf te b"
  shows "case apply_op b x of Inr b' \<Rightarrow> building_inv tf te b' | Inl err \<Rightarrow> tf \<le> 0"
proof (cases x)
  case (RequestElevator f d)
  then show ?thesis using requestElevator_inv [OF assms, of f d] by auto
next
  case (RequestElevatorFloor i f)
  then show ?thesis using requestElevatorFloor_inv [OF assms] by simp
next
  case Update
  then show ?thesis using update_inv [OF assms] by simp
next
  case Reset
  then show ?thesis using reset_inv [OF assms] by simp
qed

lemma run_inv:
  "building_inv tf te b \<Longrightarrow>
   (case run b xs of Inr b' \<Rightarrow> building_inv tf te b' | Inl err \<Rightarrow> tf \<le> 0)"
proof (induction xs arbitrary: b)
  case Nil
  then show ?case by simp
next
  case (Cons x xs)
  show ?case
  proof (cases "apply_op b x")
    case (Inl err)
    then show ?thesis using apply_op_inv [OF Cons.prems, of x] by simp
  next
    case (Inr b1)
    then have "building_inv tf te b1" using apply_op_inv [OF Cons.prems, of x] by simp
    from Cons.IH [OF this] show ?thesis using Inr by simp
  qed
qed

lemma run_reachable:
  assumes "run (Building_new tf te) ops = Inr b"
  shows "building_inv tf te b"
  using run_inv [OF Building_new_inv, of tf te ops] assms by simp

lemma run_no_error:
  assumes "0 < tf"
  shows "\<exists>b. run (Building_new tf te) ops = Inr b \<and> building_inv tf te b"
  using run_inv [OF Building_new_inv, of tf te ops] assms
  by (cases "run (Building_new tf te) ops") auto

lemma direction_ok_empty: "direction_ok e \<Longrightarrow> destinationFloors e = [] \<Longrightarrow> direction e = IDLE"
  by (simp add: direction_ok_def getNextDestination_def)

lemma direction_ok_idle:
  "direction_ok e \<Longrightarrow> direction e = IDLE \<Longrightarrow>
   destinationFloors e = [] \<or> hd (destinationFloors e) = currentFloor e"
  using getNextDestination_here [of e] by (auto simp: direction_ok_def getNextDestination_None)

lemma requestElevatorFloor_0_0:
  "elevators (requestElevatorFloor (Building_new 10 4) 0 0)
     = [addDestination (Elevator_new 0) 0, Elevator_new 1, Elevator_new 2, Elevator_new 3]"
  by (simp add: requestElevatorFloor_def Building_new_def upt_rec)

section \<open>Direction and destinations\<close>

text \<open>
  C2, as the code has it. After \<open>addDestination\<close> and \<open>removeDestination\<close>, after
  \<open>move\<close> wherever it held before, and for every elevator of a building after any
  sequence of \<open>requestElevator\<close>, \<open>requestElevatorFloor\<close>, \<open>update\<close> and \<open>reset\<close>
  from its construction: the direction is IDLE if and only if \<open>destinationFloors\<close> is
  empty or the next destination is the floor the elevator is at. So empty
  \<open>destinationFloors\<close> implies IDLE, and an IDLE elevator with destinations has its
  first destination at its own floor.
\<close>

theorem direction_idle_iff:
  "direction_ok (addDestination e f)
   \<and> direction_ok (removeDestination e f)
   \<and> (direction_ok e \<longrightarrow> direction_ok (fst (move e)))
   \<and> (run (Building_new tf te) ops = Inr b \<longrightarrow>
        (\<forall>e\<in>set (elevators b).
           (direction e = IDLE \<longleftrightarrow>
              destinationFloors e = [] \<or> getNextDestination e = Some (currentFloor e))
           \<and> (destinationFloors e = [] \<longrightarrow> direction e = IDLE)
           \<and> (direction e = IDLE \<longrightarrow>
                destinationFloors e = [] \<or> hd (destinationFloors e) = currentFloor e)))"
proof (intro conjI impI ballI)
  show "direction_ok (addDestination e f)" by (rule addDestination_ok)
  show "direction_ok (removeDestination e f)" by (rule removeDestination_ok)
  show "direction_ok (fst (move e))" if "direction_ok e" using that by (rule move_direction_ok)
next
  fix x
  assume "run (Building_new tf te) ops = Inr b" "x \<in> set (elevators b)"
  then have ok: "direction_ok x"
    using run_reachable [of tf te ops b] by (simp add: building_inv_def elevator_inv_def)
  show "direction x = IDLE \<longleftrightarrow>
          destinationFloors x = [] \<or> getNextDestination x = Some (currentFloor x)"
    using ok by (simp add: direction_ok_def getNextDestination_None)
  show "direction x = IDLE" if "destinationFloors x = []"
    using ok that by (rule direction_ok_empty)
  show "destinationFloors x = [] \<or> hd (destinationFloors x) = currentFloor x"
    if "direction x = IDLE"
    using ok that by (rule direction_ok_idle)
qed

theorem direction_idle_iff_witness:
  "direction_ok (fst (move (Elevator_new 0)))
   \<and> direction (addDestination (Elevator_new 0) 0) = IDLE
   \<and> hd (destinationFloors (addDestination (Elevator_new 0) 0))
        = currentFloor (addDestination (Elevator_new 0) 0)
   \<and> direction (Elevator_new 1) = IDLE"
proof -
  let ?b = "requestElevatorFloor (Building_new 10 4) 0 0"
  let ?e = "addDestination (Elevator_new 0) 0"
  have r: "run (Building_new 10 4) [RequestElevatorFloor 0 0] = Inr ?b" by simp
  have m: "?e \<in> set (elevators ?b)" "Elevator_new 1 \<in> set (elevators ?b)"
    by (simp_all add: requestElevatorFloor_0_0)
  have i: "direction ?e = IDLE" "destinationFloors (Elevator_new 1) = []"
    by (simp_all add: elevator_defs Elevator_new_def)
  have ne: "destinationFloors ?e \<noteq> []" by (simp add: elevator_defs Elevator_new_def)
  have ok0: "direction_ok (Elevator_new 0)" using Elevator_new_inv by (simp add: elevator_inv_def)
  note t = direction_idle_iff [of "Elevator_new 0" 0 10 4 "[RequestElevatorFloor 0 0]" ?b]
  from t ok0 have "direction_ok (fst (move (Elevator_new 0)))" by blast
  moreover from t r m(1) i(1) ne
  have "hd (destinationFloors ?e) = currentFloor ?e" by blast
  moreover from t r m(2) i(2) have "direction (Elevator_new 1) = IDLE" by blast
  ultimately show ?thesis using i(1) by blast
qed

text \<open>
  The claim as first stated fails from the initial state: after
  \<open>requestElevatorFloor(0, 0)\<close> on a new building, elevator 0 has direction IDLE and the
  destination 0.
\<close>

theorem idle_with_destination:
  "direction (elevators (requestElevatorFloor (Building_new 10 4) 0 0) ! 0) = IDLE
   \<and> destinationFloors (elevators (requestElevatorFloor (Building_new 10 4) 0 0) ! 0) = [0]"
  by (simp add: requestElevatorFloor_0_0 elevator_defs Elevator_new_def)

section \<open>Floors stay within the building\<close>

text \<open>
  C6. In a building with at least one floor, every sequence of \<open>requestElevator\<close>,
  \<open>requestElevatorFloor\<close>, \<open>update\<close> and \<open>reset\<close> from its construction runs without
  error and leaves every elevator with \<open>0 \<le> currentFloor < totalFloors\<close> and with
  destinations in that range only; and no call of \<open>move\<close>, on any elevator, changes
  \<open>currentFloor\<close> by more than one.
\<close>

theorem floors_in_bounds:
  "0 < tf \<Longrightarrow>
   (\<exists>b. run (Building_new tf te) ops = Inr b
        \<and> length (elevators b) = nat te
        \<and> (\<forall>e\<in>set (elevators b).
              0 \<le> currentFloor e \<and> currentFloor e < tf
            \<and> (\<forall>d\<in>set (destinationFloors e). 0 \<le> d \<and> d < tf)))
   \<and> \<bar>currentFloor (fst (move e)) - currentFloor e\<bar> \<le> 1"
proof
  assume tf: "0 < tf"
  then obtain b where b: "run (Building_new tf te) ops = Inr b" "building_inv tf te b"
    using run_no_error by blast
  have "\<forall>e\<in>set (elevators b).
          0 \<le> currentFloor e \<and> currentFloor e < tf
        \<and> (\<forall>d\<in>set (destinationFloors e). 0 \<le> d \<and> d < tf)"
    using b(2) tf by (auto simp: building_inv_def elevator_inv_def)
  then show "\<exists>b. run (Building_new tf te) ops = Inr b
        \<and> length (elevators b) = nat te
        \<and> (\<forall>e\<in>set (elevators b).
              0 \<le> currentFloor e \<and> currentFloor e < tf
            \<and> (\<forall>d\<in>set (destinationFloors e). 0 \<le> d \<and> d < tf))"
    using b building_inv_length_elevators by blast
  show "\<bar>currentFloor (fst (move e)) - currentFloor e\<bar> \<le> 1" by (rule move_at_most_one)
qed

theorem floors_in_bounds_witness:
  "\<exists>b. run (Building_new 10 4)
          [RequestElevatorFloor 2 7, RequestElevator 5 UP, Update, Update, Update] = Inr b
       \<and> 0 \<le> currentFloor (elevators b ! 2) \<and> currentFloor (elevators b ! 2) < 10"
proof -
  have "(0::int) < 10" by simp
  from floors_in_bounds [OF this, of 4
      "[RequestElevatorFloor 2 7, RequestElevator 5 UP, Update, Update, Update]"]
  obtain b where b: "run (Building_new 10 4)
      [RequestElevatorFloor 2 7, RequestElevator 5 UP, Update, Update, Update] = Inr b"
    "length (elevators b) = nat 4"
    "\<forall>e\<in>set (elevators b).
       0 \<le> currentFloor e \<and> currentFloor e < 10
     \<and> (\<forall>d\<in>set (destinationFloors e). 0 \<le> d \<and> d < 10)"
    by blast
  have "elevators b ! 2 \<in> set (elevators b)" using b(2) by simp
  then show ?thesis using b by blast
qed

section \<open>Rejected requests\<close>

text \<open>
  C8. In every building state, \<open>requestElevator\<close> with a floor outside
  \<open>[0, totalFloors)\<close>, with DOWN at floor 0, or with UP at floor \<open>totalFloors - 1\<close>
  returns without an error and leaves the whole building as it was: no request queued,
  no button set, no elevator changed.
\<close>

theorem requestElevator_rejects:
  "floorNumber < 0 \<or> floorNumber \<ge> totalFloors b
     \<or> (floorNumber = 0 \<and> dir = DOWN)
     \<or> (floorNumber = totalFloors b - 1 \<and> dir = UP)
   \<Longrightarrow> requestElevator b floorNumber dir = Inr b"
  by (auto simp: requestElevator_def)

theorem requestElevator_rejects_witness:
  "requestElevator (Building_new 10 4) (- 1) UP = Inr (Building_new 10 4)
   \<and> requestElevator (Building_new 10 4) 10 DOWN = Inr (Building_new 10 4)
   \<and> requestElevator (Building_new 10 4) 0 DOWN = Inr (Building_new 10 4)
   \<and> requestElevator (Building_new 10 4) 9 UP = Inr (Building_new 10 4)"
proof -
  have tf: "totalFloors (Building_new 10 4) = 10" by (simp add: Building_new_def)
  show ?thesis
    using requestElevator_rejects [of "- 1" "Building_new 10 4" UP]
      requestElevator_rejects [of 10 "Building_new 10 4" DOWN]
      requestElevator_rejects [of 0 "Building_new 10 4" DOWN]
      requestElevator_rejects [of 9 "Building_new 10 4" UP]
    by (simp add: tf)
qed

section \<open>Reset\<close>

text \<open>
  C9. After \<open>reset\<close>, from any state, every elevator is at floor 0 with no destinations
  and direction IDLE, every floor has both buttons released, and the queue of pending
  requests is empty; and after any history of operations on \<open>new Building(tf, te)\<close>,
  the building after \<open>reset\<close> is exactly the newly constructed one.
\<close>

theorem reset_initial_state:
  "(\<forall>e\<in>set (elevators (reset b)).
      currentFloor e = 0 \<and> destinationFloors e = [] \<and> direction e = IDLE
      \<and> state e = STATE_IDLE)
   \<and> (\<forall>fl\<in>set (floors (reset b)). \<not> upButtonPressed fl \<and> \<not> downButtonPressed fl)
   \<and> pendingRequests (reset b) = []
   \<and> length (elevators (reset b)) = length (elevators b)
   \<and> length (floors (reset b)) = length (floors b)
   \<and> (run (Building_new tf te) ops = Inr b \<longrightarrow> reset b = Building_new tf te)"
proof (intro conjI impI)
  show "run (Building_new tf te) ops = Inr b \<Longrightarrow> reset b = Building_new tf te"
    using run_reachable reset_new by blast
qed (auto simp: reset_def releaseUpButton_def releaseDownButton_def)

theorem reset_initial_state_witness:
  "\<exists>b. run (Building_new 10 4)
          [RequestElevatorFloor 2 7, RequestElevator 5 UP, Update, RequestElevator 3 DOWN] = Inr b
       \<and> reset b = Building_new 10 4
       \<and> currentFloor (elevators (reset b) ! 2) = 0
       \<and> destinationFloors (elevators (reset b) ! 2) = []
       \<and> direction (elevators (reset b) ! 2) = IDLE
       \<and> upButtonPressed (floors (reset b) ! 5) = False
       \<and> downButtonPressed (floors (reset b) ! 3) = False"
proof -
  let ?ops = "[RequestElevatorFloor 2 7, RequestElevator 5 UP, Update, RequestElevator 3 DOWN]"
  obtain b where b: "run (Building_new 10 4) ?ops = Inr b" "building_inv 10 4 b"
    using run_no_error [of 10 4 ?ops] by auto
  have "length (elevators b) = 4" "length (floors b) = 10"
    using building_inv_length_elevators [OF b(2)] building_inv_length_floors [OF b(2)]
    by simp_all
  with reset_initial_state [of b 10 4 ?ops]
  have "elevators (reset b) ! 2 \<in> set (elevators (reset b))"
    "floors (reset b) ! 5 \<in> set (floors (reset b))"
    "floors (reset b) ! 3 \<in> set (floors (reset b))"
    by simp_all
  with reset_initial_state [of b 10 4 ?ops] b(1) show ?thesis by blast
qed

section \<open>Choosing an elevator\<close>

text \<open>A left fold that replaces its candidate by a strictly smaller one keeps the first minimum.\<close>

lemma foldl_first_min:
  fixes k :: "'a \<Rightarrow> int"
  assumes f: "\<And>best cur. f best cur = (if k cur < k best then cur else best)"
  shows "\<exists>us vs. x # xs = us @ foldl f x xs # vs
           \<and> (\<forall>u\<in>set us. k (foldl f x xs) < k u)
           \<and> (\<forall>v\<in>set vs. k (foldl f x xs) \<le> k v)"
proof (induction xs arbitrary: x)
  case Nil
  have "[x] = [] @ foldl f x [] # []" by simp
  then show ?case by (metis empty_iff list.set(1))
next
  case (Cons y ys)
  let ?m = "foldl f (f x y) ys"
  obtain us vs where d: "f x y # ys = us @ ?m # vs"
    "\<forall>u\<in>set us. k ?m < k u" "\<forall>v\<in>set vs. k ?m \<le> k v"
    using Cons [of "f x y"] by blast
  show ?case
  proof (cases "k y < k x")
    case True
    then have "f x y = y" by (simp add: f)
    then have "x # y # ys = (x # us) @ ?m # vs" using d(1) by simp
    moreover have "k ?m \<le> k y"
    proof (cases us)
      case Nil
      then have "?m = y" using d(1) \<open>f x y = y\<close> by (metis append_Nil list.inject)
      then show ?thesis by (simp only: order_refl)
    next
      case (Cons u us')
      then have "u = y" using d(1) \<open>f x y = y\<close> by (metis append_Cons list.inject)
      then show ?thesis using d(2) Cons by auto
    qed
    then have "\<forall>u\<in>set (x # us). k ?m < k u" using True d(2) by auto
    ultimately show ?thesis using d(3) by (metis foldl_Cons)
  next
    case False
    then have fx: "f x y = x" by (simp add: f)
    show ?thesis
    proof (cases us)
      case Nil
      then have m: "?m = x" "vs = ys" using d(1) fx by (metis append_Nil list.inject)+
      have "x # y # ys = [] @ ?m # (y # ys)" using m by simp
      moreover have "\<forall>v\<in>set (y # ys). k ?m \<le> k v" using d(3) m False by auto
      ultimately show ?thesis by (metis empty_iff foldl_Cons list.set(1))
    next
      case (Cons u us')
      then have u: "u = x" "ys = us' @ ?m # vs" using d(1) fx by (metis append_Cons list.inject)+
      have "k ?m < k x" using d(2) Cons u(1) by simp
      then have "\<forall>w\<in>set (x # y # us'). k ?m < k w" using d(2) Cons False by auto
      moreover have "x # y # ys = (x # y # us') @ ?m # vs" using u(2) by simp
      ultimately show ?thesis using d(3) by (metis foldl_Cons)
    qed
  qed
qed

lemma better_score:
  "better b r best cur =
     (if 2 * getDistanceToRequest (elevators b ! cur) r
           + (if state (elevators b ! cur) = STATE_IDLE then 0 else 1)
         < 2 * getDistanceToRequest (elevators b ! best) r
           + (if state (elevators b ! best) = STATE_IDLE then 0 else 1)
      then cur else best)"
  by (auto simp: better_def Let_def)

lemma availableElevators_set:
  "set (availableElevators b r)
     = {i. i < length (elevators b) \<and> canHandleRequest (elevators b ! i) r}"
  by (auto simp: availableElevators_def)

lemma availableElevators_sorted: "sorted (availableElevators b r)"
  by (simp add: availableElevators_def sorted_wrt_filter)

lemma bestElevator_first_min:
  assumes ne: "availableElevators b r \<noteq> []"
    and j: "j < length (elevators b)" "canHandleRequest (elevators b ! j) r"
  defines "score \<equiv> \<lambda>i. 2 * getDistanceToRequest (elevators b ! i) r
                        + (if state (elevators b ! i) = STATE_IDLE then 0 else 1)"
  shows "score (bestElevator b r) \<le> score j"
    and "j < bestElevator b r \<Longrightarrow> score (bestElevator b r) < score j"
proof -
  let ?av = "availableElevators b r"
  let ?m = "bestElevator b r"
  have f: "\<And>best cur. better b r best cur = (if score cur < score best then cur else best)"
    unfolding score_def by (rule better_score)
  obtain us vs where d: "hd ?av # tl ?av = us @ ?m # vs"
    "\<forall>u\<in>set us. score ?m < score u" "\<forall>v\<in>set vs. score ?m \<le> score v"
    using foldl_first_min [of "better b r" score "hd ?av" "tl ?av", OF f]
    unfolding bestElevator_def by blast
  have av: "?av = us @ ?m # vs" using d(1) ne by simp
  have jm: "j \<in> set us \<or> j = ?m \<or> j \<in> set vs"
    using j availableElevators_set [of b r] av by (metis (mono_tags, lifting) Un_iff mem_Collect_eq set_ConsD set_append)
  then show "score ?m \<le> score j" using d(2,3) by auto
  have "sorted (us @ ?m # vs)" using availableElevators_sorted [of b r] av by simp
  then have "\<forall>v\<in>set vs. ?m \<le> v" by (simp add: sorted_append)
  then show "score ?m < score j" if "j < ?m" using jm that d(2) by auto
qed

lemma removePendingRequest_elevators:
  "removePendingRequest b r = Inr b' \<Longrightarrow> elevators b' = elevators b"
  by (auto simp: removePendingRequest_def Let_def split: if_splits option.splits)

lemma assignRequestToElevator_elevators:
  assumes "availableElevators b r \<noteq> []" "assignRequestToElevator b r = Inr b'"
  shows "elevators b' =
           (elevators b)[bestElevator b r :=
              addDestination (elevators b ! bestElevator b r) (req_floor r)]"
  using assms removePendingRequest_elevators [of _ r b']
  by (simp add: assignRequestToElevator_def Let_def)

lemma mixed_building_reached: "run (Building_new 10 4) mixed_history = Inr mixed_building"
  by code_simp

lemma addDestination_direction:
  "direction (addDestination e f) =
     (case getNextDestination (e\<lparr>destinationFloors := destinationFloors (addDestination e f)\<rparr>) of
        None \<Rightarrow> IDLE
      | Some n \<Rightarrow> if n > currentFloor e then UP
                  else if n < currentFloor e then DOWN else IDLE)"
proof -
  let ?e1 = "e\<lparr>destinationFloors := set_add f (destinationFloors e)\<rparr>"
  have "direction (addDestination e f) = direction (updateDirection ?e1)"
    by (simp only: addDestination_def)
  also have "\<dots> = (case getNextDestination ?e1 of
                       None \<Rightarrow> IDLE
                     | Some n \<Rightarrow> if n > currentFloor ?e1 then UP
                                 else if n < currentFloor ?e1 then DOWN else IDLE)"
    by (rule updateDirection_direction)
  finally show ?thesis by (simp cong: option.case_cong if_cong)
qed

lemma removePendingRequest_pending:
  "removePendingRequest b r = Inr b' \<Longrightarrow>
   pendingRequests b' = remove_first (same_request r) (pendingRequests b)"
  by (auto simp: removePendingRequest_def Let_def floor_put_def split: if_splits option.splits)

lemma assignRequestToElevator_pending:
  assumes "availableElevators b r \<noteq> []" "assignRequestToElevator b r = Inr b'"
  shows "pendingRequests b' = remove_first (same_request r) (pendingRequests b)"
  using assms removePendingRequest_pending [of _ r b']
  by (simp add: assignRequestToElevator_def Let_def)

lemma removePendingRequest_frame:
  assumes "removePendingRequest b r = Inr b'"
  shows "floors b' =
           (if list_ex (same_request r) (pendingRequests b') then floors b
            else (floors b)[nat (req_floor r) :=
                   if req_direction r = UP
                     then releaseUpButton (floors b ! nat (req_floor r))
                   else releaseDownButton (floors b ! nat (req_floor r))])
         \<and> totalFloors b' = totalFloors b \<and> totalElevators b' = totalElevators b"
proof -
  let ?ps = "remove_first (same_request r) (pendingRequests b)"
  let ?b1 = "b\<lparr>pendingRequests := ?ps\<rparr>"
  have fa: "floor_at ?b1 (req_floor r) = floor_at b (req_floor r)" by (simp add: floor_at_def)
  have ps: "pendingRequests b' = ?ps" using assms by (rule removePendingRequest_pending)
  show ?thesis
  proof (cases "list_ex (same_request r) ?ps")
    case True
    then have "b' = ?b1" using assms by (simp add: removePendingRequest_def Let_def)
    then show ?thesis using True by simp
  next
    case False
    then have r: "(case floor_at b (req_floor r) of
                     None \<Rightarrow> Inl TypeError
                   | Some fl \<Rightarrow>
                       Inr (floor_put ?b1 (req_floor r)
                              (if req_direction r = UP then releaseUpButton fl
                               else releaseDownButton fl))) = Inr b'"
      using assms by (simp add: removePendingRequest_def Let_def fa)
    then obtain fl where fl: "floor_at b (req_floor r) = Some fl"
      by (cases "floor_at b (req_floor r)") simp_all
    then have fl': "fl = floors b ! nat (req_floor r)"
      by (auto simp: floor_at_def split: if_splits)
    have "b' = floor_put ?b1 (req_floor r)
                 (if req_direction r = UP then releaseUpButton fl else releaseDownButton fl)"
      using r fl by simp
    then show ?thesis using False by (simp add: floor_put_def fl')
  qed
qed

lemma assignRequestToElevator_frame:
  assumes "availableElevators b r \<noteq> []" "assignRequestToElevator b r = Inr b'"
  shows "floors b' =
           (if list_ex (same_request r) (pendingRequests b') then floors b
            else (floors b)[nat (req_floor r) :=
                   if req_direction r = UP
                     then releaseUpButton (floors b ! nat (req_floor r))
                   else releaseDownButton (floors b ! nat (req_floor r))])
         \<and> totalFloors b' = totalFloors b \<and> totalElevators b' = totalElevators b"
  using assms
    removePendingRequest_frame
      [of "b\<lparr>elevators := (elevators b)[bestElevator b r :=
             addDestination (elevators b ! bestElevator b r) (req_floor r)]\<rparr>" r b']
  by (simp add: assignRequestToElevator_def Let_def)

lemma mixed_building_facts:
  "length (elevators mixed_building) = 4"
  "availableElevators mixed_building request_5_up \<noteq> []"
  "req_floor request_5_up = 5"
  "\<not> canHandleRequest (elevators mixed_building ! 3) request_5_up"
  "canHandleRequest (elevators mixed_building ! 1) request_5_up"
  "\<bar>currentFloor (elevators mixed_building ! 0) - 5\<bar> = 3"
  "\<bar>currentFloor (elevators mixed_building ! 1) - 5\<bar> = 3"
  "\<bar>currentFloor (elevators mixed_building ! 2) - 5\<bar> = 4"
  "\<bar>currentFloor (elevators mixed_building ! 3) - 5\<bar> = 1"
  "state (elevators mixed_building ! 0) = MOVING_UP"
  "state (elevators mixed_building ! 1) = STATE_IDLE"
  "destinationFloors (elevators mixed_building ! 1) = []"
  by code_simp+

text \<open>
  C5. \<open>assignRequestToElevator\<close> considers exactly the elevators for which
  \<open>canHandleRequest\<close> holds: the idle ones, those moving UP for an UP request at a floor
  \<open>\<ge> currentFloor\<close>, and those moving DOWN for a DOWN request at a floor
  \<open>\<le> currentFloor\<close>. When there is none, nothing changes and the request stays queued.
  Otherwise the chosen elevator is one of them, none of them has a smaller
  \<open>|currentFloor - floor of the request|\<close>, at equal distance an idle one is chosen
  before a moving one, and among those equal in both the one of lowest index. That
  elevator gets the floor of the request as a destination (appended if new), keeps its
  floor and has its direction recomputed; no other elevator changes; and the first queued
  request for that floor and direction leaves the queue. In a building as constructed,
  for a request for one of its floors, the assignment raises no error.
\<close>

theorem assignRequestToElevator_choice:
  "set (availableElevators b r)
     = {i. i < length (elevators b) \<and> canHandleRequest (elevators b ! i) r}
   \<and> (canHandleRequest e r \<longleftrightarrow>
        state e = STATE_IDLE
        \<or> (direction e = UP \<and> req_direction r = UP \<and> req_floor r \<ge> currentFloor e)
        \<or> (direction e = DOWN \<and> req_direction r = DOWN \<and> req_floor r \<le> currentFloor e))
   \<and> getDistanceToRequest e r = \<bar>currentFloor e - req_floor r\<bar>
   \<and> getNextDestination x =
       (if destinationFloors x = [] then None
        else if direction x = UP \<and> (\<exists>d\<in>set (destinationFloors x). d > currentFloor x)
          then Some (Min {d \<in> set (destinationFloors x). d > currentFloor x})
        else if direction x = DOWN \<and> (\<exists>d\<in>set (destinationFloors x). d < currentFloor x)
          then Some (Max {d \<in> set (destinationFloors x). d < currentFloor x})
        else Some (hd (destinationFloors x)))
   \<and> (availableElevators b r = [] \<longrightarrow> assignRequestToElevator b r = Inr b)
   \<and> (availableElevators b r \<noteq> [] \<longrightarrow>
        bestElevator b r < length (elevators b)
      \<and> canHandleRequest (elevators b ! bestElevator b r) r
      \<and> (j < length (elevators b) \<and> canHandleRequest (elevators b ! j) r \<longrightarrow>
           \<bar>currentFloor (elevators b ! bestElevator b r) - req_floor r\<bar>
             \<le> \<bar>currentFloor (elevators b ! j) - req_floor r\<bar>
         \<and> (\<bar>currentFloor (elevators b ! j) - req_floor r\<bar>
               = \<bar>currentFloor (elevators b ! bestElevator b r) - req_floor r\<bar>
             \<and> state (elevators b ! j) = STATE_IDLE
             \<longrightarrow> state (elevators b ! bestElevator b r) = STATE_IDLE)
         \<and> (\<bar>currentFloor (elevators b ! j) - req_floor r\<bar>
               = \<bar>currentFloor (elevators b ! bestElevator b r) - req_floor r\<bar>
             \<and> (state (elevators b ! j) = STATE_IDLE
                  \<longleftrightarrow> state (elevators b ! bestElevator b r) = STATE_IDLE)
             \<longrightarrow> bestElevator b r \<le> j))
      \<and> (assignRequestToElevator b r = Inr b' \<longrightarrow>
           elevators b' =
             (elevators b)[bestElevator b r :=
                addDestination (elevators b ! bestElevator b r) (req_floor r)]
         \<and> length (elevators b') = length (elevators b)
         \<and> (\<forall>k<length (elevators b). k \<noteq> bestElevator b r \<longrightarrow>
               elevators b' ! k = elevators b ! k)
         \<and> req_floor r \<in> set (destinationFloors (elevators b' ! bestElevator b r))
         \<and> destinationFloors (elevators b' ! bestElevator b r) =
             (if req_floor r \<in> set (destinationFloors (elevators b ! bestElevator b r))
              then destinationFloors (elevators b ! bestElevator b r)
              else destinationFloors (elevators b ! bestElevator b r) @ [req_floor r])
         \<and> currentFloor (elevators b' ! bestElevator b r)
             = currentFloor (elevators b ! bestElevator b r)
         \<and> elev_id (elevators b' ! bestElevator b r)
             = elev_id (elevators b ! bestElevator b r)
         \<and> direction (elevators b' ! bestElevator b r) =
             (case getNextDestination
                     ((elevators b ! bestElevator b r)
                        \<lparr>destinationFloors :=
                           destinationFloors (elevators b' ! bestElevator b r)\<rparr>) of
                None \<Rightarrow> IDLE
              | Some n \<Rightarrow>
                  if n > currentFloor (elevators b ! bestElevator b r) then UP
                  else if n < currentFloor (elevators b ! bestElevator b r) then DOWN
                  else IDLE)
         \<and> state (elevators b' ! bestElevator b r) =
             (case direction (elevators b' ! bestElevator b r) of
                UP \<Rightarrow> MOVING_UP | DOWN \<Rightarrow> MOVING_DOWN | IDLE \<Rightarrow> STATE_IDLE)
         \<and> pendingRequests b' = remove_first (same_request r) (pendingRequests b)
         \<and> floors b' =
             (if list_ex (same_request r) (pendingRequests b') then floors b
              else (floors b)[nat (req_floor r) :=
                     if req_direction r = UP
                       then releaseUpButton (floors b ! nat (req_floor r))
                     else releaseDownButton (floors b ! nat (req_floor r))])
         \<and> totalFloors b' = totalFloors b \<and> totalElevators b' = totalElevators b)
      \<and> (building_inv tf te b \<and> 0 \<le> req_floor r \<and> req_floor r < tf \<longrightarrow>
           (\<exists>b''. assignRequestToElevator b r = Inr b'')))"
proof (intro conjI impI allI)
  show "set (availableElevators b r)
     = {i. i < length (elevators b) \<and> canHandleRequest (elevators b ! i) r}"
    by (rule availableElevators_set)
  show "canHandleRequest e r \<longleftrightarrow>
        state e = STATE_IDLE
        \<or> (direction e = UP \<and> req_direction r = UP \<and> req_floor r \<ge> currentFloor e)
        \<or> (direction e = DOWN \<and> req_direction r = DOWN \<and> req_floor r \<le> currentFloor e)"
    by (simp add: canHandleRequest_def)
  show "getDistanceToRequest e r = \<bar>currentFloor e - req_floor r\<bar>"
    by (simp add: getDistanceToRequest_def)
  show "getNextDestination x =
       (if destinationFloors x = [] then None
        else if direction x = UP \<and> (\<exists>d\<in>set (destinationFloors x). d > currentFloor x)
          then Some (Min {d \<in> set (destinationFloors x). d > currentFloor x})
        else if direction x = DOWN \<and> (\<exists>d\<in>set (destinationFloors x). d < currentFloor x)
          then Some (Max {d \<in> set (destinationFloors x). d < currentFloor x})
        else Some (hd (destinationFloors x)))"
    by (rule getNextDestination_explicit)
  show "assignRequestToElevator b r = Inr b" if "availableElevators b r = []"
    using that by (simp add: assignRequestToElevator_def)
next
  assume ne: "availableElevators b r \<noteq> []"
  let ?m = "bestElevator b r"
  have m: "?m \<in> set (availableElevators b r)" using ne by (rule bestElevator_available)
  show "?m < length (elevators b)" "canHandleRequest (elevators b ! ?m) r"
    using m by (simp_all add: availableElevators_set)
  show "\<exists>b''. assignRequestToElevator b r = Inr b''"
    if "building_inv tf te b \<and> 0 \<le> req_floor r \<and> req_floor r < tf"
    using that assignRequestToElevator_inv [of tf te b r] by blast
next
  assume ne: "availableElevators b r \<noteq> []" and a: "assignRequestToElevator b r = Inr b'"
  let ?m = "bestElevator b r"
  let ?old = "elevators b ! ?m"
  have m: "?m < length (elevators b)" using ne by (rule bestElevator_less)
  show els: "elevators b' = (elevators b)[?m := addDestination ?old (req_floor r)]"
    using ne a by (rule assignRequestToElevator_elevators)
  then have new: "elevators b' ! ?m = addDestination ?old (req_floor r)" using m by simp
  show "length (elevators b') = length (elevators b)" by (simp add: els)
  show "elevators b' ! k = elevators b ! k" if "k < length (elevators b)" "k \<noteq> ?m" for k
    using that by (simp add: els)
  show "req_floor r \<in> set (destinationFloors (elevators b' ! ?m))" by (simp add: new)
  show "destinationFloors (elevators b' ! ?m) =
             (if req_floor r \<in> set (destinationFloors ?old) then destinationFloors ?old
              else destinationFloors ?old @ [req_floor r])"
    by (simp add: new set_add_def)
  show "currentFloor (elevators b' ! ?m) = currentFloor ?old" by (simp add: new)
  show "elev_id (elevators b' ! ?m) = elev_id ?old" by (simp add: new)
  show "direction (elevators b' ! ?m) =
             (case getNextDestination
                     (?old\<lparr>destinationFloors := destinationFloors (elevators b' ! ?m)\<rparr>) of
                None \<Rightarrow> IDLE
              | Some n \<Rightarrow>
                  if n > currentFloor ?old then UP
                  else if n < currentFloor ?old then DOWN
                  else IDLE)"
    unfolding new by (rule addDestination_direction)
  show "pendingRequests b' = remove_first (same_request r) (pendingRequests b)"
    using ne a by (rule assignRequestToElevator_pending)
  show "state (elevators b' ! ?m) =
             (case direction (elevators b' ! ?m) of
                UP \<Rightarrow> MOVING_UP | DOWN \<Rightarrow> MOVING_DOWN | IDLE \<Rightarrow> STATE_IDLE)"
    unfolding new addDestination_def by (rule updateDirection_state)
  show "floors b' =
             (if list_ex (same_request r) (pendingRequests b') then floors b
              else (floors b)[nat (req_floor r) :=
                     if req_direction r = UP
                       then releaseUpButton (floors b ! nat (req_floor r))
                     else releaseDownButton (floors b ! nat (req_floor r))])"
    "totalFloors b' = totalFloors b" "totalElevators b' = totalElevators b"
    using assignRequestToElevator_frame [OF ne a] by simp_all
next
  assume ne: "availableElevators b r \<noteq> []"
    and "j < length (elevators b) \<and> canHandleRequest (elevators b ! j) r"
  then have j: "j < length (elevators b)" "canHandleRequest (elevators b ! j) r" by simp_all
  let ?m = "bestElevator b r"
  note le = bestElevator_first_min(1) [OF ne j, unfolded getDistanceToRequest_def]
  note less = bestElevator_first_min(2) [OF ne j, unfolded getDistanceToRequest_def]
  show "\<bar>currentFloor (elevators b ! ?m) - req_floor r\<bar>
          \<le> \<bar>currentFloor (elevators b ! j) - req_floor r\<bar>"
    using le by (auto split: if_splits)
  show "state (elevators b ! ?m) = STATE_IDLE"
    if "\<bar>currentFloor (elevators b ! j) - req_floor r\<bar>
          = \<bar>currentFloor (elevators b ! ?m) - req_floor r\<bar>
        \<and> state (elevators b ! j) = STATE_IDLE"
    using le that by (auto split: if_splits)
  show "?m \<le> j"
    if "\<bar>currentFloor (elevators b ! j) - req_floor r\<bar>
          = \<bar>currentFloor (elevators b ! ?m) - req_floor r\<bar>
        \<and> (state (elevators b ! j) = STATE_IDLE \<longleftrightarrow> state (elevators b ! ?m) = STATE_IDLE)"
  proof (rule ccontr)
    assume "\<not> ?m \<le> j"
    then have "j < ?m" by simp
    from less [OF this] that show False by (auto split: if_splits)
  qed
qed

theorem assignRequestToElevator_choice_witness:
  "run (Building_new 10 4) mixed_history = Inr mixed_building
   \<and> bestElevator mixed_building request_5_up = 1
   \<and> (\<exists>b'. assignRequestToElevator mixed_building request_5_up = Inr b'
          \<and> destinationFloors (elevators b' ! 1) = [5]
          \<and> elevators b' ! 0 = elevators mixed_building ! 0
          \<and> elevators b' ! 3 = elevators mixed_building ! 3)
   \<and> assignRequestToElevator (requestElevatorFloor (Building_new 10 1) 0 9) request_5_down
       = Inr (requestElevatorFloor (Building_new 10 1) 0 9)"
proof -
  let ?b = "mixed_building"
  let ?r = "request_5_up"
  let ?m = "bestElevator ?b ?r"
  let ?c = "requestElevatorFloor (Building_new 10 1) 0 9"
  note f = mixed_building_facts
  have inv: "building_inv 10 4 ?b \<and> 0 \<le> req_floor ?r \<and> req_floor ?r < 10"
    using run_reachable [OF mixed_building_reached] by (simp add: f)
  have none: "availableElevators ?c request_5_down = []"
    by code_simp
  note t = assignRequestToElevator_choice [of ?b ?r "Elevator_new 0" _ 1 _ 10 4]
  from t f(2) have m: "?m < length (elevators ?b)" "canHandleRequest (elevators ?b ! ?m) ?r"
    by blast+
  from t f(2) have j1:
    "\<bar>currentFloor (elevators ?b ! ?m) - req_floor ?r\<bar>
       \<le> \<bar>currentFloor (elevators ?b ! 1) - req_floor ?r\<bar>"
    "\<bar>currentFloor (elevators ?b ! 1) - req_floor ?r\<bar>
       = \<bar>currentFloor (elevators ?b ! ?m) - req_floor ?r\<bar>
     \<and> state (elevators ?b ! 1) = STATE_IDLE
     \<longrightarrow> state (elevators ?b ! ?m) = STATE_IDLE"
    using f(1,5) by (simp_all del: One_nat_def)
  have "?m = 0 \<or> ?m = 1 \<or> ?m = 2 \<or> ?m = 3"
    using m(1) unfolding f(1) by presburger
  then have m1: "?m = 1"
  proof (elim disjE)
    assume "?m = 0"
    then show ?thesis using j1(2) f by simp
  next
    assume "?m = 1"
    then show ?thesis .
  next
    assume "?m = 2"
    then show ?thesis using j1(1) f by simp
  next
    assume "?m = 3"
    then show ?thesis using m(2) f by simp
  qed
  from t f(2) inv obtain b'' where b'': "assignRequestToElevator ?b ?r = Inr b''" by blast
  from assignRequestToElevator_choice [of ?b ?r "Elevator_new 0" _ 1 b'' 10 4] f(2) b''
  have r: "\<forall>k<length (elevators ?b). k \<noteq> ?m \<longrightarrow> elevators b'' ! k = elevators ?b ! k"
    "destinationFloors (elevators b'' ! ?m) =
       (if req_floor ?r \<in> set (destinationFloors (elevators ?b ! ?m))
        then destinationFloors (elevators ?b ! ?m)
        else destinationFloors (elevators ?b ! ?m) @ [req_floor ?r])"
    by blast+
  have "destinationFloors (elevators b'' ! 1) = [5]"
    using r(2) unfolding m1 f(12) f(3) by simp
  moreover have "elevators b'' ! 0 = elevators ?b ! 0" "elevators b'' ! 3 = elevators ?b ! 3"
    using r(1) unfolding m1 f(1) by simp_all
  moreover from assignRequestToElevator_choice [of ?c request_5_down] none
  have "assignRequestToElevator ?c request_5_down = Inr ?c" by blast
  ultimately show ?thesis using m1 b'' mixed_building_reached by blast
qed

section \<open>Requests for the same floor and direction\<close>

lemma filter_remove_first:
  "length (filter P (remove_first P xs)) = length (filter P xs) - 1"
  by (induction xs) auto

lemma removePendingRequest_queued:
  "removePendingRequest b r = Inr b' \<Longrightarrow> queued r b' = queued r b - 1"
  by (auto simp: removePendingRequest_def Let_def queued_def filter_remove_first floor_put_def
      split: if_splits option.splits)

lemma floor_at_frame [simp]:
  "floor_at (b\<lparr>pendingRequests := ps\<rparr>) i = floor_at b i"
  "floor_at (b\<lparr>elevators := es\<rparr>) i = floor_at b i"
  by (simp_all add: floor_at_def)

lemma removePendingRequest_no_error:
  assumes "floor_at b (req_floor r) = Some fl"
  shows "\<exists>b'. removePendingRequest b r = Inr b'"
  using assms by (simp add: removePendingRequest_def Let_def)















section \<open>The tick\<close>

text \<open>
  C3, at the input where the code departs from it. After \<open>two_calls_waiting\<close> the
  requests (5, DOWN) and (6, DOWN) are queued and the four elevators are at floor 8. In
  the next tick the elevators reach floor 9 and become idle; the loop over the queue
  assigns (5, DOWN) to elevator 0 and takes it out of the queue, which moves (6, DOWN) to
  the index the loop has just left, so the loop ends without a call of
  \<open>assignRequestToElevator\<close> for it: after the second phase, and after the whole tick,
  (6, DOWN) is still queued although every elevator can handle it and three are idle.
\<close>

theorem update_skips_queued_request:
  "map_sum id pendingRequests (run (Building_new 10 4) two_calls_waiting)
     = Inr [request_5_down, request_6_down]
   \<and> case_sum Inl
        (\<lambda>b. map_sum id
                (\<lambda>b'. (pendingRequests b', map state (elevators b'),
                        availableElevators b' request_6_down))
                (assign_pending (move_all b)))
        (run (Building_new 10 4) two_calls_waiting)
     = Inr ([request_6_down], [MOVING_DOWN, STATE_IDLE, STATE_IDLE, STATE_IDLE], [0, 1, 2, 3])
   \<and> map_sum id pendingRequests (run (Building_new 10 4) (two_calls_waiting @ [Update]))
     = Inr [request_6_down]"
  by code_simp

section \<open>Arrivals\<close>

lemma floor_at_put:
  "floor_at b i = Some fl \<Longrightarrow> floor_at (floor_put b i fl') i = Some fl'"
  by (auto simp: floor_at_def floor_put_def split: if_splits)

lemma removePendingRequest_result:
  assumes "floor_at b (req_floor r) = Some fl"
  shows "\<exists>b'. removePendingRequest b r = Inr b'
            \<and> pendingRequests b' = remove_first (same_request r) (pendingRequests b)
            \<and> elevators b' = elevators b
            \<and> (floors b' = floors b
                \<or> floors b' = (floors b)[nat (req_floor r) :=
                     (if req_direction r = UP then releaseUpButton fl else releaseDownButton fl)])"
  using assms by (simp add: removePendingRequest_def Let_def floor_put_def)

lemma arrival_up:
  assumes fl: "floor_at b (currentFloor e) = Some fl"
    and up: "direction e = UP" "upButtonPressed fl"
  defines "r \<equiv> \<lparr>req_floor = currentFloor e, req_direction = UP\<rparr>"
  shows "\<exists>b' fl'. arrival b e = Inr b'
           \<and> floor_at b' (currentFloor e) = Some fl' \<and> \<not> upButtonPressed fl'
           \<and> pendingRequests b' = remove_first (same_request r) (pendingRequests b)
           \<and> queued r b' = queued r b - 1
           \<and> elevators b' = elevators b"
proof -
  let ?c = "currentFloor e"
  let ?b0 = "floor_put b ?c (releaseUpButton fl)"
  have fl0: "floor_at ?b0 (req_floor r) = Some (releaseUpButton fl)"
    using fl by (simp add: r_def floor_at_put)
  from removePendingRequest_result [OF fl0]
  obtain b' where b': "removePendingRequest ?b0 r = Inr b'"
    "pendingRequests b' = remove_first (same_request r) (pendingRequests b)"
    "elevators b' = elevators b"
    "floors b' = floors ?b0
       \<or> floors b' = (floors ?b0)[nat ?c := releaseUpButton (releaseUpButton fl)]"
    by (auto simp: r_def)
  have c: "0 \<le> ?c" "nat ?c < length (floors b)"
    using fl by (auto simp: floor_at_def split: if_splits)
  have "releaseUpButton (releaseUpButton fl) = releaseUpButton fl"
    by (simp add: releaseUpButton_def)
  then have floors: "floors b' = (floors b)[nat ?c := releaseUpButton fl]"
    using b'(4) by (auto simp: floor_put_def)
  then have fl': "floor_at b' ?c = Some (releaseUpButton fl)"
    using c by (simp add: floor_at_def)
  have "arrival b e = Inr b'"
    using fl up b'(1) fl' by (simp add: arrival_def r_def)
  moreover have "queued r b' = queued r b - 1"
    using b'(2) by (simp add: queued_def filter_remove_first)
  moreover have "\<not> upButtonPressed (releaseUpButton fl)" by (simp add: releaseUpButton_def)
  ultimately show ?thesis using fl' b'(2,3) by blast
qed

lemma arrival_down:
  assumes fl: "floor_at b (currentFloor e) = Some fl"
    and dn: "direction e = DOWN" "downButtonPressed fl"
  defines "r \<equiv> \<lparr>req_floor = currentFloor e, req_direction = DOWN\<rparr>"
  shows "\<exists>b' fl'. arrival b e = Inr b'
           \<and> floor_at b' (currentFloor e) = Some fl' \<and> \<not> downButtonPressed fl'
           \<and> pendingRequests b' = remove_first (same_request r) (pendingRequests b)
           \<and> queued r b' = queued r b - 1
           \<and> elevators b' = elevators b"
proof -
  let ?c = "currentFloor e"
  let ?b0 = "floor_put b ?c (releaseDownButton fl)"
  have fl0: "floor_at ?b0 (req_floor r) = Some (releaseDownButton fl)"
    using fl by (simp add: r_def floor_at_put)
  from removePendingRequest_result [OF fl0]
  obtain b' where b': "removePendingRequest ?b0 r = Inr b'"
    "pendingRequests b' = remove_first (same_request r) (pendingRequests b)"
    "elevators b' = elevators b"
    "floors b' = floors ?b0
       \<or> floors b' = (floors ?b0)[nat ?c := releaseDownButton (releaseDownButton fl)]"
    by (auto simp: r_def)
  have c: "0 \<le> ?c" "nat ?c < length (floors b)"
    using fl by (auto simp: floor_at_def split: if_splits)
  have "releaseDownButton (releaseDownButton fl) = releaseDownButton fl"
    by (simp add: releaseDownButton_def)
  then have floors: "floors b' = (floors b)[nat ?c := releaseDownButton fl]"
    using b'(4) by (auto simp: floor_put_def)
  then have fl': "floor_at b' ?c = Some (releaseDownButton fl)"
    using c by (simp add: floor_at_def)
  have "arrival b e = Inr b'"
    using fl dn b'(1) by (simp add: arrival_def r_def)
  moreover have "queued r b' = queued r b - 1"
    using b'(2) by (simp add: queued_def filter_remove_first)
  moreover have "\<not> downButtonPressed (releaseDownButton fl)" by (simp add: releaseDownButton_def)
  ultimately show ?thesis using fl' b'(2,3) by blast
qed

lemma arrival_ignores_destinations:
  "arrival b (e\<lparr>destinationFloors := ds\<rparr>) = arrival b e"
  by (simp add: arrival_def cong: option.case_cong sum.case_cong if_cong)

lemma released_only_refl: "released_only b b"
  by (simp add: released_only_def)

lemma released_only_trans:
  "released_only a b \<Longrightarrow> released_only b c \<Longrightarrow> released_only a c"
  by (simp add: released_only_def)

lemma released_only_update:
  assumes "upButtonPressed fl' \<longrightarrow> upButtonPressed (floors b ! i)"
    "downButtonPressed fl' \<longrightarrow> downButtonPressed (floors b ! i)"
    "floors b' = (floors b)[i := fl']"
  shows "released_only b b'"
proof -
  have "(upButtonPressed ((floors b)[i := fl'] ! k) \<longrightarrow> upButtonPressed (floors b ! k))
      \<and> (downButtonPressed ((floors b)[i := fl'] ! k) \<longrightarrow> downButtonPressed (floors b ! k))"
    if "k < length (floors b)" for k
    using assms(1,2) that by (cases "k = i") simp_all
  then show ?thesis using assms(3) by (simp add: released_only_def)
qed

lemma removePendingRequest_released:
  assumes "removePendingRequest b r = Inr b'"
  shows "released_only b b'"
proof (cases "floor_at b (req_floor r)")
  case None
  then have "floors b' = floors b"
    using assms by (auto simp: removePendingRequest_def Let_def split: if_splits)
  then show ?thesis by (simp add: released_only_def)
next
  case (Some fl)
  then have fl: "fl = floors b ! nat (req_floor r)"
    by (auto simp: floor_at_def split: if_splits)
  from removePendingRequest_result [OF Some] assms
  consider "floors b' = floors b"
    | "floors b' = (floors b)[nat (req_floor r) :=
         (if req_direction r = UP then releaseUpButton fl else releaseDownButton fl)]"
    by auto
  then show ?thesis
  proof cases
    case 1
    then show ?thesis by (simp add: released_only_def)
  next
    case 2
    show ?thesis
      by (rule released_only_update [OF _ _ 2])
         (simp_all add: fl releaseUpButton_def releaseDownButton_def)
  qed
qed

lemma floor_put_released:
  assumes "floor_at b i = Some fl"
  shows "released_only b (floor_put b i (releaseUpButton fl))"
    and "released_only b (floor_put b i (releaseDownButton fl))"
proof -
  have fl: "fl = floors b ! nat i" using assms by (auto simp: floor_at_def split: if_splits)
  show "released_only b (floor_put b i (releaseUpButton fl))"
    by (rule released_only_update [where i = "nat i"])
       (simp_all add: fl releaseUpButton_def floor_put_def)
  show "released_only b (floor_put b i (releaseDownButton fl))"
    by (rule released_only_update [where i = "nat i"])
       (simp_all add: fl releaseDownButton_def floor_put_def)
qed

lemma arrival_released:
  assumes "arrival b e = Inr b'"
  shows "released_only b b' \<and> elevators b' = elevators b"
proof -
  let ?c = "currentFloor e"
  obtain fl where fl: "floor_at b ?c = Some fl"
    using assms by (auto simp: arrival_def split: option.splits)
  let ?up = "if upButtonPressed fl \<and> direction e = UP
               then removePendingRequest (floor_put b ?c (releaseUpButton fl))
                      \<lparr>req_floor = ?c, req_direction = UP\<rparr>
             else Inr b"
  obtain b1 where b1: "?up = Inr b1"
    using assms fl by (cases ?up) (simp_all add: arrival_def)
  have r1: "released_only b b1 \<and> elevators b1 = elevators b"
  proof (cases "upButtonPressed fl \<and> direction e = UP")
    case True
    then have rp: "removePendingRequest (floor_put b ?c (releaseUpButton fl))
                \<lparr>req_floor = ?c, req_direction = UP\<rparr> = Inr b1" using b1 by simp
    show ?thesis
      using released_only_trans [OF floor_put_released(1) [OF fl]
          removePendingRequest_released [OF rp]]
        removePendingRequest_elevators [OF rp] by simp
  next
    case False
    then show ?thesis using b1 by (auto simp: released_only_refl)
  qed
  obtain fl1 where fl1: "floor_at b1 ?c = Some fl1"
    using assms fl b1 by (auto simp: arrival_def split: option.splits)
  have dn: "(if downButtonPressed fl1 \<and> direction e = DOWN
               then removePendingRequest (floor_put b1 ?c (releaseDownButton fl1))
                      \<lparr>req_floor = ?c, req_direction = DOWN\<rparr>
             else Inr b1) = Inr b'"
    using assms fl b1 fl1 by (simp add: arrival_def)
  have "released_only b1 b' \<and> elevators b' = elevators b1"
  proof (cases "downButtonPressed fl1 \<and> direction e = DOWN")
    case True
    then have rp: "removePendingRequest (floor_put b1 ?c (releaseDownButton fl1))
                \<lparr>req_floor = ?c, req_direction = DOWN\<rparr> = Inr b'" using dn by simp
    show ?thesis
      using released_only_trans [OF floor_put_released(2) [OF fl1]
          removePendingRequest_released [OF rp]]
        removePendingRequest_elevators [OF rp] by simp
  next
    case False
    then show ?thesis using dn by (auto simp: released_only_refl)
  qed
  then show ?thesis using r1 released_only_trans by auto
qed

lemma arrivals_released:
  "arrivals es b = Inr b' \<Longrightarrow> released_only b b' \<and> elevators b' = elevators b"
proof (induction es arbitrary: b)
  case Nil
  then show ?case by (simp add: released_only_refl)
next
  case (Cons e es)
  then obtain b1 where b1: "arrival b e = Inr b1" "arrivals es b1 = Inr b'"
    by (auto split: sum.splits)
  show ?case
    using arrival_released [OF b1(1)] Cons.IH [OF b1(2)] released_only_trans by auto
qed

lemma arrival_clears:
  assumes "arrival b e = Inr b'"
  shows "floor_at b' (currentFloor e) \<noteq> None"
    and "direction e = UP \<Longrightarrow> \<not> upButtonPressed (floors b' ! nat (currentFloor e))"
    and "direction e = DOWN \<Longrightarrow> \<not> downButtonPressed (floors b' ! nat (currentFloor e))"
proof -
  let ?c = "currentFloor e"
  obtain fl where fl: "floor_at b ?c = Some fl"
    using assms by (auto simp: arrival_def split: option.splits)
  then have c: "0 \<le> ?c" "nat ?c < length (floors b)" "fl = floors b ! nat ?c"
    by (auto simp: floor_at_def split: if_splits)
  have rel: "released_only b b'" using arrival_released [OF assms] by simp
  then show "floor_at b' ?c \<noteq> None" using c by (simp add: floor_at_def released_only_def)
  show "\<not> upButtonPressed (floors b' ! nat ?c)" if up: "direction e = UP"
  proof (cases "upButtonPressed fl")
    case True
    from arrival_up [OF fl up True] assms
    obtain fl' where "floor_at b' ?c = Some fl'" "\<not> upButtonPressed fl'" by auto
    then show ?thesis by (auto simp: floor_at_def split: if_splits)
  next
    case False
    then show ?thesis using rel c by (auto simp: released_only_def)
  qed
  show "\<not> downButtonPressed (floors b' ! nat ?c)" if dn: "direction e = DOWN"
  proof (cases "downButtonPressed fl")
    case True
    from arrival_down [OF fl dn True] assms
    obtain fl' where "floor_at b' ?c = Some fl'" "\<not> downButtonPressed fl'" by auto
    then show ?thesis by (auto simp: floor_at_def split: if_splits)
  next
    case False
    then show ?thesis using rel c by (auto simp: released_only_def)
  qed
qed

lemma arrivals_clear:
  assumes "arrivals es b = Inr b'" "e \<in> set es"
  shows "\<exists>fl'. floor_at b' (currentFloor e) = Some fl'
           \<and> (direction e = UP \<longrightarrow> \<not> upButtonPressed fl')
           \<and> (direction e = DOWN \<longrightarrow> \<not> downButtonPressed fl')"
  using assms
proof (induction es arbitrary: b)
  case Nil
  then show ?case by simp
next
  case (Cons x es)
  then obtain b1 where b1: "arrival b x = Inr b1" "arrivals es b1 = Inr b'"
    by (auto split: sum.splits)
  show ?case
  proof (cases "e \<in> set es")
    case True
    then show ?thesis using Cons.IH [OF b1(2)] by simp
  next
    case False
    then have ex: "e = x" using Cons.prems(2) by simp
    let ?c = "currentFloor e"
    have rel: "released_only b1 b'" using arrivals_released [OF b1(2)] by simp
    have c: "0 \<le> ?c" "nat ?c < length (floors b1)"
      using arrival_clears(1) [OF b1(1)] ex by (auto simp: floor_at_def split: if_splits)
    then have "floor_at b' ?c = Some (floors b' ! nat ?c)"
      using rel by (simp add: floor_at_def released_only_def)
    moreover have "direction e = UP \<longrightarrow> \<not> upButtonPressed (floors b' ! nat ?c)"
      using arrival_clears(2) [OF b1(1)] ex rel c by (auto simp: released_only_def)
    moreover have "direction e = DOWN \<longrightarrow> \<not> downButtonPressed (floors b' ! nat ?c)"
      using arrival_clears(3) [OF b1(1)] ex rel c by (auto simp: released_only_def)
    ultimately show ?thesis by blast
  qed
qed

text \<open>
  C10. In \<open>checkElevatorArrivals\<close>, the step for an elevator whose floor has the button
  of the elevator's direction pressed raises no error, releases that button and takes
  the first queued request for that floor and direction out of the queue, leaving the
  elevators as they are; the step does not read \<open>destinationFloors\<close>. After the whole
  loop, at the floor of every elevator the button of that elevator's direction is
  released. So a request still queued is consumed by an elevator that moves through its
  floor: in the tenth tick after \<open>four_calls_waiting\<close>, elevator 0 is at floor 8 on its
  way down to 7 and 2, the request (8, DOWN) is still queued, and the arrival check
  releases the button and empties the queue; one tick later the elevator is at floor 7.
\<close>

theorem arrival_clears_button:
  "(floor_at b (currentFloor e) = Some fl \<and> direction e = UP \<and> upButtonPressed fl \<longrightarrow>
      (\<exists>b' fl'. arrival b e = Inr b'
         \<and> floor_at b' (currentFloor e) = Some fl' \<and> \<not> upButtonPressed fl'
         \<and> pendingRequests b' =
             remove_first (same_request \<lparr>req_floor = currentFloor e, req_direction = UP\<rparr>)
               (pendingRequests b)
         \<and> queued \<lparr>req_floor = currentFloor e, req_direction = UP\<rparr> b' =
             queued \<lparr>req_floor = currentFloor e, req_direction = UP\<rparr> b - 1
         \<and> elevators b' = elevators b))
   \<and> (floor_at b (currentFloor e) = Some fl \<and> direction e = DOWN \<and> downButtonPressed fl \<longrightarrow>
      (\<exists>b' fl'. arrival b e = Inr b'
         \<and> floor_at b' (currentFloor e) = Some fl' \<and> \<not> downButtonPressed fl'
         \<and> pendingRequests b' =
             remove_first (same_request \<lparr>req_floor = currentFloor e, req_direction = DOWN\<rparr>)
               (pendingRequests b)
         \<and> queued \<lparr>req_floor = currentFloor e, req_direction = DOWN\<rparr> b' =
             queued \<lparr>req_floor = currentFloor e, req_direction = DOWN\<rparr> b - 1
         \<and> elevators b' = elevators b))
   \<and> arrival b (e\<lparr>destinationFloors := ds\<rparr>) = arrival b e
   \<and> (checkElevatorArrivals b = Inr b2 \<and> x \<in> set (elevators b) \<longrightarrow>
        (\<exists>fl'. floor_at b2 (currentFloor x) = Some fl'
           \<and> (direction x = UP \<longrightarrow> \<not> upButtonPressed fl')
           \<and> (direction x = DOWN \<longrightarrow> \<not> downButtonPressed fl')))
   \<and> case_sum Inl (\<lambda>b. assign_pending (move_all b))
        (run (Building_new 10 4) four_calls_waiting) = Inr passing_8
   \<and> checkElevatorArrivals passing_8
        = Inr (passing_8\<lparr>floors := map (\<lambda>i. Floor_new (int i)) [0..<10],
                         pendingRequests := []\<rparr>)
   \<and> run (Building_new 10 4) (four_calls_waiting @ [Update])
        = Inr (passing_8\<lparr>floors := map (\<lambda>i. Floor_new (int i)) [0..<10],
                         pendingRequests := []\<rparr>)
   \<and> map_sum id (\<lambda>b. map currentFloor (elevators b))
        (run (Building_new 10 4) (four_calls_waiting @ [Update, Update]))
        = Inr [7, 7, 9, 9]"
proof -
  have scenario:
    "case_sum Inl (\<lambda>b. assign_pending (move_all b))
        (run (Building_new 10 4) four_calls_waiting) = Inr passing_8
     \<and> checkElevatorArrivals passing_8
        = Inr (passing_8\<lparr>floors := map (\<lambda>i. Floor_new (int i)) [0..<10],
                         pendingRequests := []\<rparr>)
     \<and> run (Building_new 10 4) (four_calls_waiting @ [Update])
        = Inr (passing_8\<lparr>floors := map (\<lambda>i. Floor_new (int i)) [0..<10],
                         pendingRequests := []\<rparr>)
     \<and> map_sum id (\<lambda>b. map currentFloor (elevators b))
        (run (Building_new 10 4) (four_calls_waiting @ [Update, Update]))
        = Inr [7, 7, 9, 9]"
    by code_simp
  have loop: "\<exists>fl'. floor_at b2 (currentFloor x) = Some fl'
           \<and> (direction x = UP \<longrightarrow> \<not> upButtonPressed fl')
           \<and> (direction x = DOWN \<longrightarrow> \<not> downButtonPressed fl')"
    if "checkElevatorArrivals b = Inr b2 \<and> x \<in> set (elevators b)"
    using that arrivals_clear [of "elevators b" b b2 x] by (simp add: checkElevatorArrivals_def)
  show ?thesis
    using arrival_up [of b e fl] arrival_down [of b e fl] arrival_ignores_destinations [of b ds e]
      loop scenario
    by (intro conjI impI) blast+
qed

theorem arrival_clears_button_witness:
  "(\<exists>b' fl'. arrival passing_8 (elevators passing_8 ! 0) = Inr b'
       \<and> floor_at b' 8 = Some fl' \<and> downButtonPressed fl' = False
       \<and> pendingRequests b' = []
       \<and> elevators b' = elevators passing_8)
   \<and> hasDestination (elevators passing_8 ! 0) 8 = False"
proof -
  let ?e = "elevators passing_8 ! 0"
  let ?fl = "\<lparr>number = 8, upButtonPressed = False, downButtonPressed = True\<rparr>"
  have e: "currentFloor ?e = 8" "direction ?e = DOWN" "hasDestination ?e 8 = False"
    by code_simp+
  have h: "floor_at passing_8 (currentFloor ?e) = Some ?fl \<and> direction ?e = DOWN
           \<and> downButtonPressed ?fl"
    by code_simp
  have p: "remove_first (same_request \<lparr>req_floor = currentFloor ?e, req_direction = DOWN\<rparr>)
             (pendingRequests passing_8) = []"
    by code_simp
  from arrival_clears_button [of passing_8 ?e ?fl] h
  obtain b' fl' where "arrival passing_8 ?e = Inr b'"
    "floor_at b' (currentFloor ?e) = Some fl'" "\<not> downButtonPressed fl'"
    "pendingRequests b' =
       remove_first (same_request \<lparr>req_floor = currentFloor ?e, req_direction = DOWN\<rparr>)
         (pendingRequests passing_8)"
    "elevators b' = elevators passing_8"
    by blast
  then show ?thesis using e p by auto
qed

end
